theory Spec2Isabelle
  imports Main "HOL-Library.Log_Nat"
begin

section \<open>MathSTK-Ex: exercise generation, grading and plan accounting\<close>

text \<open>
  A shallow embedding of the arithmetic core of \<^verbatim>\<open>src/main.py\<close>: the exercise generator
  \<^verbatim>\<open>generate_exercise\<close>, the plan tracker \<^verbatim>\<open>can_use_plan\<close> / \<^verbatim>\<open>track_usage\<close>, the plan
  transitions of \<^verbatim>\<open>choose_plan\<close>, \<^verbatim>\<open>update_activation_after_payment\<close> and \<^verbatim>\<open>index_get\<close>,
  and the grading loop of \<^verbatim>\<open>answers_route\<close>.

  Python values are modelled as follows. An \<^verbatim>\<open>int\<close> is an \<^typ>\<open>int\<close>. A \<^verbatim>\<open>str\<close> is a
  \<^typ>\<open>string\<close>, one \<^typ>\<open>char\<close> per code point, which covers the code points below 256;
  the multiplication sign U+00D7 and the division sign U+00F7 of the source are the
  characters \<open>CHR 0xD7\<close> and \<open>CHR 0xF7\<close>. A dictionary with a fixed set of optional keys
  is a record of options, a dictionary with computed keys a map. A raised exception is
  the \<open>Inl\<close> of a sum; where the source mutates a shared object before it raises, the
  mutated state is returned beside the error.
\<close>

subsection \<open>Exceptions\<close>

datatype py_error =
    KeyError
  | ValueError
  | TypeError
  | UnboundLocalError
  | ZeroDivisionError
  | OverflowError

subsection \<open>Decimal rendering of integers\<close>

text \<open>\<^verbatim>\<open>str(n)\<close> for an integer, and the format specification \<^verbatim>\<open>{n:3d}\<close>.\<close>

definition digit_char :: "nat \<Rightarrow> char" where
  "digit_char d = char_of (48 + d)"

fun str_nat :: "nat \<Rightarrow> string" where
  "str_nat n = (if n < 10 then [digit_char n] else str_nat (n div 10) @ [digit_char (n mod 10)])"

declare str_nat.simps [simp del]

definition str_int :: "int \<Rightarrow> string" where
  "str_int i = (if i < 0 then CHR ''-'' # str_nat (nat (- i)) else str_nat (nat i))"

definition rjust :: "nat \<Rightarrow> string \<Rightarrow> string" where
  "rjust w s = replicate (w - length s) CHR '' '' @ s"

definition fmt_3d :: "int \<Rightarrow> string" where
  "fmt_3d i = rjust 3 (str_int i)"

subsection \<open>The exercise generator\<close>

text \<open>
  \<^verbatim>\<open>random.randint(low, high)\<close> returns an integer of the closed interval from \<open>low\<close> to
  \<open>high\<close> and raises \<^verbatim>\<open>ValueError\<close> when the interval is empty. The generator's state is
  not modelled: each call receives the entropy it consumes as a natural number \<open>r\<close>, and
  the draw is the \<open>r\<close>-th element of the interval, counted cyclically, so that every
  element of the interval and nothing else can be drawn.
\<close>

definition randint :: "int \<Rightarrow> int \<Rightarrow> nat \<Rightarrow> py_error + int" where
  "randint low high r =
     (if high < low then Inl ValueError
      else Inr (low + int (r mod nat (high - low + 1))))"

text \<open>The dictionary returned by \<^verbatim>\<open>generate_exercise\<close>, keys \<^verbatim>\<open>a b op result res_len\<close>.\<close>

record exercise =
  ex_a :: int
  ex_b :: int
  ex_op :: string
  ex_result :: int
  ex_res_len :: nat

definition levels :: "string list" where
  "levels = [''easy'', ''intermediate'', ''hard'', ''very hard'', ''expert'']"

text \<open>
  The three range tables. A level outside the table leaves the bounds unassigned, and the
  first use of them raises \<^verbatim>\<open>UnboundLocalError\<close>.
\<close>

definition add_sub_range :: "string \<Rightarrow> py_error + int \<times> int" where
  "add_sub_range level =
     (if level = ''easy'' then Inr (0, 10)
      else if level = ''intermediate'' then Inr (0, 50)
      else if level = ''hard'' then Inr (0, 100)
      else if level = ''very hard'' then Inr (0, 200)
      else if level = ''expert'' then Inr (0, 1000000)
      else Inl UnboundLocalError)"

definition mul_range :: "string \<Rightarrow> py_error + int \<times> int" where
  "mul_range level =
     (if level = ''easy'' then Inr (0, 5)
      else if level = ''intermediate'' then Inr (0, 10)
      else if level = ''hard'' then Inr (0, 20)
      else if level = ''very hard'' then Inr (0, 30)
      else if level = ''expert'' then Inr (0, 1000)
      else Inl UnboundLocalError)"

definition div_range :: "string \<Rightarrow> py_error + (int \<times> int) \<times> (int \<times> int)" where
  "div_range level =
     (if level = ''easy'' then Inr ((1, 5), (0, 5))
      else if level = ''intermediate'' then Inr ((1, 10), (0, 10))
      else if level = ''hard'' then Inr ((1, 20), (0, 20))
      else if level = ''very hard'' then Inr ((1, 30), (0, 30))
      else if level = ''expert'' then Inr ((1, 100), (0, 10000))
      else Inl UnboundLocalError)"

definition mk_exercise :: "int \<Rightarrow> int \<Rightarrow> string \<Rightarrow> int \<Rightarrow> exercise" where
  "mk_exercise x y symb res =
     \<lparr>ex_a = x, ex_b = y, ex_op = symb, ex_result = res, ex_res_len = length (str_int res)\<rparr>"

text \<open>
  \<^verbatim>\<open>generate_exercise(operation, level)\<close>. Every path draws twice; \<open>r1\<close> and \<open>r2\<close> are the
  entropy of the first and of the second draw. An operation that is none of the four
  falls off the end of the function, which returns \<^verbatim>\<open>None\<close>.
\<close>

definition generate_exercise ::
  "string \<Rightarrow> string \<Rightarrow> nat \<Rightarrow> nat \<Rightarrow> py_error + exercise option" where
  "generate_exercise operation level r1 r2 =
     (if operation = ''addition'' \<or> operation = ''subtraction'' then
        (case add_sub_range level of
           Inl e \<Rightarrow> Inl e
         | Inr (low, high) \<Rightarrow>
             (case randint low high r1 of
                Inl e \<Rightarrow> Inl e
              | Inr x \<Rightarrow>
                  if operation = ''addition'' then
                    (case randint low high r2 of
                       Inl e \<Rightarrow> Inl e
                     | Inr y \<Rightarrow> Inr (Some (mk_exercise x y ''+'' (x + y))))
                  else
                    (case randint low x r2 of
                       Inl e \<Rightarrow> Inl e
                     | Inr y \<Rightarrow> Inr (Some (mk_exercise x y ''-'' (x - y))))))
      else if operation = ''multiplication'' then
        (case mul_range level of
           Inl e \<Rightarrow> Inl e
         | Inr (low, high) \<Rightarrow>
             (case randint low high r1 of
                Inl e \<Rightarrow> Inl e
              | Inr x \<Rightarrow>
                  (case randint low high r2 of
                     Inl e \<Rightarrow> Inl e
                   | Inr y \<Rightarrow> Inr (Some (mk_exercise x y [CHR 0xD7] (x * y))))))
      else if operation = ''division'' then
        (case div_range level of
           Inl e \<Rightarrow> Inl e
         | Inr ((b_low, b_high), (q_low, q_high)) \<Rightarrow>
             (case randint b_low b_high r1 of
                Inl e \<Rightarrow> Inl e
              | Inr y \<Rightarrow>
                  (case randint q_low q_high r2 of
                     Inl e \<Rightarrow> Inl e
                   | Inr quot \<Rightarrow> Inr (Some (mk_exercise (y * quot) y [CHR 0xF7] quot)))))
      else Inr None)"

subsection \<open>Accounts, plans and usage counters\<close>

text \<open>
  A \<^verbatim>\<open>datetime\<close> is a number of microseconds on the local clock, and
  \<^verbatim>\<open>timedelta(days=n)\<close> the matching number of microseconds; addition and comparison of
  naive datetimes are exact.
\<close>

type_synonym datetime = int

definition timedelta_days :: "int \<Rightarrow> int" where
  "timedelta_days n = n * 86400000000"

text \<open>
  The \<^verbatim>\<open>usage_count\<close> dictionary maps a level name, or \<^verbatim>\<open>total\<close>, to a counter. An
  account is a dictionary; the record below holds the keys that the plan logic reads or
  writes, each absent (\<open>None\<close>) or present. The registration form stores \<^verbatim>\<open>birth_date\<close>
  as the submitted text or as \<^verbatim>\<open>None\<close>, hence the nested option. The keys of the
  credentials, the theme and the remember-me token are left out: no function modelled
  here touches them.
\<close>

type_synonym usage = "string \<rightharpoonup> int"

record user_data =
  birth_date :: "string option option"
  plan :: "string option"
  plan_start :: "datetime option"
  usage_count :: "usage option"
  activation_id :: "string option"

type_synonym users = "string \<rightharpoonup> user_data"

definition default_usage :: usage where
  "default_usage = [''easy'' \<mapsto> 0, ''intermediate'' \<mapsto> 0, ''hard'' \<mapsto> 0,
     ''very hard'' \<mapsto> 0, ''expert'' \<mapsto> 0, ''total'' \<mapsto> 0]"

text \<open>\<^verbatim>\<open>user_data.setdefault("usage_count", {...})\<close>: the dictionary found or stored, and the account.\<close>

definition setdefault_usage_count :: "user_data \<Rightarrow> usage \<times> user_data" where
  "setdefault_usage_count ud =
     (case usage_count ud of
        None \<Rightarrow> (default_usage, ud\<lparr>usage_count := Some default_usage\<rparr>)
      | Some uc \<Rightarrow> (uc, ud))"

text \<open>\<^verbatim>\<open>usage_count.get(level, 0)\<close>.\<close>

definition usage_get :: "usage \<Rightarrow> string \<Rightarrow> int" where
  "usage_get uc k = (case uc k of None \<Rightarrow> 0 | Some n \<Rightarrow> n)"

text \<open>\<^verbatim>\<open>usage_count[k] += 1\<close>, which raises \<^verbatim>\<open>KeyError\<close> on a missing key.\<close>

definition usage_incr :: "usage \<Rightarrow> string \<Rightarrow> py_error + usage" where
  "usage_incr uc k = (case uc k of None \<Rightarrow> Inl KeyError | Some n \<Rightarrow> Inr (uc(k \<mapsto> n + 1)))"

text \<open>
  The counters of an account as every reader sees them: the stored dictionary, or the
  default one that the first reader stores.
\<close>

definition current_usage :: "user_data \<Rightarrow> usage" where
  "current_usage ud = fst (setdefault_usage_count ud)"

text \<open>The account that \<^verbatim>\<open>register_route\<close> stores: no plan, no counters.\<close>

definition registered :: "string option \<Rightarrow> user_data" where
  "registered bd =
     \<lparr>birth_date = Some bd, plan = None, plan_start = None, usage_count = None,
      activation_id = None\<rparr>"

text \<open>
  The shape of the counters that the program produces: if the dictionary is stored, it
  holds the five levels and the total, and no counter is negative.
\<close>

definition usage_ok :: "user_data \<Rightarrow> bool" where
  "usage_ok ud =
     (case usage_count ud of
        None \<Rightarrow> True
      | Some uc \<Rightarrow>
          list_all (\<lambda>k. case uc k of None \<Rightarrow> False | Some n \<Rightarrow> 0 \<le> n) (''total'' # levels))"

text \<open>
  The body of \<^verbatim>\<open>can_use_plan\<close> once \<^verbatim>\<open>users[email]\<close> has been found. The \<^verbatim>\<open>setdefault\<close>
  comes first, so the account keeps the default counters also when the lookup of
  \<^verbatim>\<open>plan\<close> raises.
\<close>

definition can_use_plan_body :: "user_data \<Rightarrow> string \<Rightarrow> (py_error + bool) \<times> user_data" where
  "can_use_plan_body ud0 level =
     (let (uc, ud) = setdefault_usage_count ud0 in
      case plan ud of
        None \<Rightarrow> (Inl KeyError, ud)
      | Some p \<Rightarrow>
          if p = ''free'' then (Inr (usage_get uc level < 1), ud)
          else if p = ''monthly'' then (Inr True, ud)
          else if p = ''twenty'' then
            (case uc ''total'' of
               None \<Rightarrow> (Inl KeyError, ud)
             | Some t \<Rightarrow> (Inr (t < 20), ud))
          else (Inr False, ud))"

definition can_use_plan :: "string \<Rightarrow> string \<Rightarrow> users \<Rightarrow> (py_error + bool) \<times> users" where
  "can_use_plan email level us =
     (case us email of
        None \<Rightarrow> (Inl KeyError, us)
      | Some ud0 \<Rightarrow>
          (let (r, ud) = can_use_plan_body ud0 level in (r, us(email \<mapsto> ud))))"

text \<open>
  \<^verbatim>\<open>track_usage\<close>. On the \<^verbatim>\<open>twenty\<close> plan the total is incremented before the level, so
  a level that is no key of the dictionary leaves the total incremented when the
  \<^verbatim>\<open>KeyError\<close> is raised. The closing \<^verbatim>\<open>save_users()\<close> writes the accounts to the remote
  store, swallows every failure and leaves the accounts in memory as they are.
\<close>

definition track_usage_body :: "user_data \<Rightarrow> string \<Rightarrow> (py_error + unit) \<times> user_data" where
  "track_usage_body ud0 level =
     (let (uc, ud) = setdefault_usage_count ud0 in
      case plan ud of
        None \<Rightarrow> (Inl KeyError, ud)
      | Some p \<Rightarrow>
          if p = ''free'' then
            (case usage_incr uc level of
               Inl e \<Rightarrow> (Inl e, ud)
             | Inr uc1 \<Rightarrow> (Inr (), ud\<lparr>usage_count := Some uc1\<rparr>))
          else if p = ''twenty'' then
            (case usage_incr uc ''total'' of
               Inl e \<Rightarrow> (Inl e, ud)
             | Inr uc1 \<Rightarrow>
                 (case usage_incr uc1 level of
                    Inl e \<Rightarrow> (Inl e, ud\<lparr>usage_count := Some uc1\<rparr>)
                  | Inr uc2 \<Rightarrow> (Inr (), ud\<lparr>usage_count := Some uc2\<rparr>)))
          else (Inr (), ud))"

definition track_usage :: "string \<Rightarrow> string \<Rightarrow> users \<Rightarrow> (py_error + unit) \<times> users" where
  "track_usage email level us =
     (case us email of
        None \<Rightarrow> (Inl KeyError, us)
      | Some ud0 \<Rightarrow>
          (let (r, ud) = track_usage_body ud0 level in (r, us(email \<mapsto> ud))))"

text \<open>A run of \<^verbatim>\<open>track_usage\<close> calls for one account, stopping at the first exception.\<close>

fun track_usage_all :: "string \<Rightarrow> string list \<Rightarrow> users \<Rightarrow> (py_error + unit) \<times> users" where
  "track_usage_all email [] us = (Inr (), us)"
| "track_usage_all email (level # ls) us =
     (case track_usage email level us of
        (Inl e, us1) \<Rightarrow> (Inl e, us1)
      | (Inr _, us1) \<Rightarrow> track_usage_all email ls us1)"

subsection \<open>The routes that change or check a plan\<close>

text \<open>
  A route returns the page it answers with and the messages it flashes. Of the arguments
  of the selection page the plan, the counters and the per-level permissions are kept;
  the formatted dates and the host address are not.
\<close>

datatype page =
    Landing
  | Redirect string
  | Choose_plan_page bool
  | Selection string usage "(string \<times> bool) list"

type_synonym flash = "string \<times> string"

datatype http_method = GET | POST

text \<open>\<^verbatim>\<open>all(usage_count.get(lvl, 0) >= 1 for lvl in levels)\<close>.\<close>

definition all_exhausted :: "usage \<Rightarrow> bool" where
  "all_exhausted uc = list_all (\<lambda>lvl. 1 \<le> usage_get uc lvl) levels"

text \<open>\<^verbatim>\<open>{lvl: can_use_plan(email, lvl) for lvl in levels}\<close>, in the order of the levels.\<close>

fun can_use_dict :: "string \<Rightarrow> string list \<Rightarrow> users \<Rightarrow> (py_error + (string \<times> bool) list) \<times> users" where
  "can_use_dict email [] us = (Inr [], us)"
| "can_use_dict email (lvl # ls) us =
     (case can_use_plan email lvl us of
        (Inl e, us1) \<Rightarrow> (Inl e, us1)
      | (Inr ok, us1) \<Rightarrow>
          (case can_use_dict email ls us1 of
             (Inl e, us2) \<Rightarrow> (Inl e, us2)
           | (Inr rest, us2) \<Rightarrow> (Inr ((lvl, ok) # rest), us2)))"

text \<open>
  \<^verbatim>\<open>index_get\<close> from the test of the free plan on: the account \<open>ud\<close> holds the plan \<open>p\<close>
  and, if monthly, has not expired.
\<close>

definition index_get_selection ::
  "string \<Rightarrow> user_data \<Rightarrow> string \<Rightarrow> users \<Rightarrow> (py_error + page \<times> flash list) \<times> users" where
  "index_get_selection email ud0 p us =
     (let (exhausted, ud1) =
            (if p = ''free'' then
               (let (uc, ud) = setdefault_usage_count ud0 in (all_exhausted uc, ud))
             else (False, ud0))
      in if exhausted then
           (Inr (Redirect ''/choose_plan'',
                 [(''Your free trial is exhausted. Please choose another plan.'', ''warning'')]),
            us(email \<mapsto> ud1))
         else
           (let (uc, ud2) = setdefault_usage_count ud1 in
            case can_use_dict email levels (us(email \<mapsto> ud2)) of
              (Inl e, us1) \<Rightarrow> (Inl e, us1)
            | (Inr can_use, us1) \<Rightarrow> (Inr (Selection p uc can_use, []), us1)))"

text \<open>
  \<^verbatim>\<open>index_get\<close>: \<open>session_user\<close> is \<^verbatim>\<open>session["user"]\<close> if present, \<open>now\<close> the value of
  \<^verbatim>\<open>datetime.now()\<close>.
\<close>

definition index_get ::
  "string option \<Rightarrow> datetime \<Rightarrow> users \<Rightarrow> (py_error + page \<times> flash list) \<times> users" where
  "index_get session_user now us =
     (case session_user of
        None \<Rightarrow> (Inr (Landing, []), us)
      | Some email \<Rightarrow>
          (case us email of
             None \<Rightarrow> (Inl KeyError, us)
           | Some ud \<Rightarrow>
               (case plan ud of
                  None \<Rightarrow> (Inr (Redirect ''/choose_plan'', []), us)
                | Some p \<Rightarrow>
                    if p = ''monthly'' then
                      (case plan_start ud of
                         None \<Rightarrow> (Inl KeyError, us)
                       | Some start \<Rightarrow>
                           if now > start + timedelta_days 30 then
                             (Inr (Redirect ''/choose_plan'',
                                   [(''Your monthly subscription has expired. Please choose a new plan.'',
                                     ''warning'')]),
                              us(email \<mapsto> ud\<lparr>plan := None, plan_start := None\<rparr>))
                           else index_get_selection email ud p us)
                    else index_get_selection email ud p us)))"

text \<open>The text of a value that is a string or \<^verbatim>\<open>None\<close>, as an f-string renders it.\<close>

definition str_of_option :: "string option \<Rightarrow> string" where
  "str_of_option v = (case v of None \<Rightarrow> ''None'' | Some s \<Rightarrow> s)"

text \<open>
  \<^verbatim>\<open>choose_plan\<close>: \<open>form_plan\<close> is \<^verbatim>\<open>request.form.get("plan")\<close>. A paid plan is not
  activated here: the request is sent on to the purchase route.
\<close>

definition choose_plan ::
  "string option \<Rightarrow> http_method \<Rightarrow> string option \<Rightarrow> users
     \<Rightarrow> (py_error + page \<times> flash list) \<times> users" where
  "choose_plan session_user meth form_plan us =
     (case session_user of
        None \<Rightarrow> (Inr (Redirect ''/login'', []), us)
      | Some email \<Rightarrow>
          (case us email of
             None \<Rightarrow> (Inl KeyError, us)
           | Some ud \<Rightarrow>
               (let free_disabled =
                      (case usage_count ud of None \<Rightarrow> False | Some uc \<Rightarrow> all_exhausted uc)
                in if meth = POST then
                     (if form_plan = Some ''monthly'' \<or> form_plan = Some ''twenty'' then
                        (Inr (Redirect (''/purchase_plan/'' @ str_of_option form_plan), []), us)
                      else if form_plan \<noteq> Some ''free'' then
                        (Inr (Choose_plan_page free_disabled, [(''Invalid plan.'', ''danger'')]), us)
                      else if free_disabled then
                        (Inr (Choose_plan_page True,
                              [(''Your free trial is exhausted. Please choose another plan.'',
                                ''warning'')]), us)
                      else
                        (Inr (Redirect ''/'', [(''Plan successfully saved.'', ''success'')]),
                         us(email \<mapsto> snd (setdefault_usage_count (ud\<lparr>plan := form_plan\<rparr>)))))
                   else (Inr (Choose_plan_page free_disabled, []), us))))"

text \<open>
  \<^verbatim>\<open>update_activation_after_payment(plan)\<close>, called once a payment is captured or an
  activation key accepted. \<open>now\<close> is the \<^verbatim>\<open>datetime.now()\<close> stored as the start of the
  plan and \<open>now_str\<close> the formatted time stamp of the activation identifier. The
  function reads \<^verbatim>\<open>session["user"]\<close> without a test.
\<close>

definition update_activation_after_payment ::
  "string \<Rightarrow> string option \<Rightarrow> datetime \<Rightarrow> string \<Rightarrow> users \<Rightarrow> (py_error + unit) \<times> users" where
  "update_activation_after_payment p session_user now now_str us =
     (case session_user of
        None \<Rightarrow> (Inl KeyError, us)
      | Some email \<Rightarrow>
          (case us email of
             None \<Rightarrow> (Inl KeyError, us)
           | Some ud \<Rightarrow>
               if p = ''monthly'' then
                 (Inr (), us(email \<mapsto> ud\<lparr>plan := Some ''monthly'', plan_start := Some now,
                    activation_id := Some (email @ ''_'' @ now_str)\<rparr>))
               else if p = ''twenty'' then
                 (let bd = (case birth_date ud of None \<Rightarrow> ''unknown'' | Some v \<Rightarrow> str_of_option v)
                  in (Inr (), us(email \<mapsto> ud\<lparr>plan := Some ''twenty'',
                        activation_id := Some (email @ ''_'' @ bd @ ''_'' @ now_str)\<rparr>)))
               else (Inr (), us(email \<mapsto> ud))))"

subsection \<open>Parsing a submitted integer\<close>

text \<open>
  \<^verbatim>\<open>str.isspace\<close> on the code points below 256: the ASCII white space, the four
  separators U+001C to U+001F, U+0085 and U+00A0. \<^verbatim>\<open>str.strip()\<close> removes such characters
  at both ends.
\<close>

definition py_isspace :: "char \<Rightarrow> bool" where
  "py_isspace c =
     (let n = (of_char c :: nat)
      in (9 \<le> n \<and> n \<le> 13) \<or> (28 \<le> n \<and> n \<le> 32) \<or> n = 133 \<or> n = 160)"

definition strip :: "string \<Rightarrow> string" where
  "strip s = rev (dropWhile py_isspace (rev (dropWhile py_isspace s)))"

text \<open>
  The white space that \<^verbatim>\<open>int\<close> skips around a number is a smaller set: the ASCII white
  space (tab to carriage return, and the blank), U+0085 and U+00A0. The separators U+001C
  to U+001F, which \<^verbatim>\<open>strip\<close> removes, make \<^verbatim>\<open>int\<close> raise.
\<close>

definition int_isspace :: "char \<Rightarrow> bool" where
  "int_isspace c =
     (let n = (of_char c :: nat)
      in (9 \<le> n \<and> n \<le> 13) \<or> n = 32 \<or> n = 133 \<or> n = 160)"

definition int_strip :: "string \<Rightarrow> string" where
  "int_strip s = rev (dropWhile int_isspace (rev (dropWhile int_isspace s)))"

definition is_digit :: "char \<Rightarrow> bool" where
  "is_digit c = (let n = (of_char c :: nat) in 48 \<le> n \<and> n \<le> 57)"

definition digit_val :: "char \<Rightarrow> nat" where
  "digit_val c = of_char c - 48"

text \<open>
  \<^verbatim>\<open>int(s)\<close> on a string, base ten: white space around, one optional sign, then digits,
  where single underscores may separate digits. Anything else raises \<^verbatim>\<open>ValueError\<close>, and
  so does a number of more than 4300 digits (the default limit of the interpreter,
  \<^verbatim>\<open>sys.int_info.default_max_str_digits\<close>; leading zeros count, underscores do not).
  \<open>parse_digits acc cs\<close> reads what follows a digit.
\<close>

definition max_str_digits :: nat where
  "max_str_digits = 4300"

fun parse_digits :: "nat \<Rightarrow> string \<Rightarrow> nat option" where
  "parse_digits acc [] = Some acc"
| "parse_digits acc (c # cs) =
     (if is_digit c then parse_digits (acc * 10 + digit_val c) cs
      else if c = CHR ''_'' then
        (case cs of
           [] \<Rightarrow> None
         | d # ds \<Rightarrow> if is_digit d then parse_digits (acc * 10 + digit_val d) ds else None)
      else None)"

definition parse_unsigned :: "string \<Rightarrow> nat option" where
  "parse_unsigned s =
     (case s of
        [] \<Rightarrow> None
      | c # cs \<Rightarrow>
          if is_digit c \<and> length (filter is_digit s) \<le> max_str_digits
          then parse_digits (digit_val c) cs
          else None)"

definition py_int :: "string \<Rightarrow> py_error + int" where
  "py_int s =
     (case int_strip s of
        [] \<Rightarrow> Inl ValueError
      | c # cs \<Rightarrow>
          if c = CHR ''-'' then
            (case parse_unsigned cs of None \<Rightarrow> Inl ValueError | Some n \<Rightarrow> Inr (- int n))
          else if c = CHR ''+'' then
            (case parse_unsigned cs of None \<Rightarrow> Inl ValueError | Some n \<Rightarrow> Inr (int n))
          else
            (case parse_unsigned (c # cs) of None \<Rightarrow> Inl ValueError | Some n \<Rightarrow> Inr (int n)))"

text \<open>\<^verbatim>\<open>int(request.form.get(key))\<close>: a missing field is \<^verbatim>\<open>None\<close>, on which \<^verbatim>\<open>int\<close> raises \<^verbatim>\<open>TypeError\<close>.\<close>

definition py_int_opt :: "string option \<Rightarrow> py_error + int" where
  "py_int_opt v = (case v of None \<Rightarrow> Inl TypeError | Some s \<Rightarrow> py_int s)"

subsection \<open>Binary floating point\<close>

text \<open>
  The score is computed on Python floats, that is IEEE 754 binary64 numbers under
  rounding to nearest, ties to even. A finite float is a pair \<open>(m, e)\<close> of integers that
  stands for \<open>m * 2 ^ e\<close>.

  \<open>rhe_div n d\<close> is the integer nearest to \<open>n / d\<close> for \<open>d > 0\<close>, the even one of the two
  when \<open>n / d\<close> lies half way.
\<close>

type_synonym float = "int \<times> int"

definition rhe_div :: "int \<Rightarrow> int \<Rightarrow> int" where
  "rhe_div n d =
     (let q = n div d; r = n mod d
      in if 2 * r < d then q
         else if d < 2 * r then q + 1
         else if even q then q else q + 1)"

text \<open>\<open>ilog2 n d\<close> is the integer \<open>k\<close> with \<open>2 ^ k \<le> n / d < 2 ^ (k + 1)\<close>, for positive \<open>n\<close> and \<open>d\<close>.\<close>

definition ilog2 :: "int \<Rightarrow> int \<Rightarrow> int" where
  "ilog2 n d =
     (let k = bitlen n - bitlen d
      in if (if 0 \<le> k then d * 2 ^ nat k \<le> n else d \<le> n * 2 ^ nat (- k)) then k else k - 1)"

text \<open>
  \<open>round_binary64 n d\<close> is the float nearest to the fraction \<open>n / d\<close>, \<open>d > 0\<close>: a
  significand of 53 bits, or of fewer bits at the least exponent \<open>- 1074\<close>. The result
  may exceed the largest finite float, which \<open>float_overflow\<close> tests.
\<close>

definition round_binary64 :: "int \<Rightarrow> int \<Rightarrow> float" where
  "round_binary64 n d =
     (if n = 0 then (0, 0)
      else
        (let e = max (ilog2 \<bar>n\<bar> d - 52) (- 1074)
         in (if 0 \<le> e then rhe_div n (d * 2 ^ nat e) else rhe_div (n * 2 ^ nat (- e)) d, e)))"

definition float_overflow :: "float \<Rightarrow> bool" where
  "float_overflow f =
     (case f of (m, e) \<Rightarrow>
        if 0 \<le> e then 2 ^ 1024 \<le> \<bar>m\<bar> * 2 ^ nat e else 2 ^ 1024 * 2 ^ nat (- e) \<le> \<bar>m\<bar>)"

text \<open>
  True division of integers, \<^verbatim>\<open>x / y\<close>: the quotient correctly rounded,
  \<^verbatim>\<open>ZeroDivisionError\<close> for a zero divisor, \<^verbatim>\<open>OverflowError\<close> for a quotient too large.
\<close>

definition int_truediv :: "int \<Rightarrow> int \<Rightarrow> py_error + float" where
  "int_truediv x y =
     (if y = 0 then Inl ZeroDivisionError
      else
        (let f = (if 0 < y then round_binary64 x y else round_binary64 (- x) (- y))
         in if float_overflow f then Inl OverflowError else Inr f))"

text \<open>
  The product of two floats, rounded. A product beyond the largest float is the
  infinity, on which \<^verbatim>\<open>round\<close> raises; \<open>py_round\<close> makes that test.
\<close>

definition float_mul :: "float \<Rightarrow> float \<Rightarrow> float" where
  "float_mul f g =
     (case f of (m1, e1) \<Rightarrow> case g of (m2, e2) \<Rightarrow>
        (let m = m1 * m2; e = e1 + e2
         in if 0 \<le> e then round_binary64 (m * 2 ^ nat e) 1 else round_binary64 m (2 ^ nat (- e))))"

text \<open>\<^verbatim>\<open>round(x)\<close> with one argument: the nearest integer, ties to even.\<close>

definition py_round :: "float \<Rightarrow> py_error + int" where
  "py_round f =
     (if float_overflow f then Inl OverflowError
      else case f of (m, e) \<Rightarrow>
        Inr (if 0 \<le> e then m * 2 ^ nat e else rhe_div m (2 ^ nat (- e))))"

text \<open>The float \<^verbatim>\<open>100.0\<close>, to which the integer \<^verbatim>\<open>100\<close> converts exactly.\<close>

definition float_100 :: float where
  "float_100 = (100, 0)"

text \<open>
  \<^verbatim>\<open>round((total_correct / total_questions) * 100) if total_questions > 0 else 0\<close>
\<close>

definition score :: "int \<Rightarrow> int \<Rightarrow> py_error + int" where
  "score total_correct total_questions =
     (if total_questions > 0 then
        (case int_truediv total_correct total_questions of
           Inl e \<Rightarrow> Inl e
         | Inr q \<Rightarrow> py_round (float_mul q float_100))
      else Inr 0)"

text \<open>
  The score as the specification words it, on exact fractions:
  \<open>round(100 * correct / total)\<close>, and \<open>0\<close> for no question. \<open>spec_score\<close> rounds a tie
  to the even integer, as \<^verbatim>\<open>round\<close> does, and \<open>spec_score_half_up\<close> rounds a tie upwards.
\<close>

definition spec_score :: "int \<Rightarrow> int \<Rightarrow> int" where
  "spec_score correct_count total_count =
     (if total_count = 0 then 0 else rhe_div (100 * correct_count) total_count)"

definition spec_score_half_up :: "int \<Rightarrow> int \<Rightarrow> int" where
  "spec_score_half_up correct_count total_count =
     (if total_count = 0 then 0
      else (2 * (100 * correct_count) + total_count) div (2 * total_count))"

subsection \<open>Grading a submission\<close>

text \<open>
  The submitted form is a multi-dictionary: \<^verbatim>\<open>get\<close> returns the first value stored under
  a key, and \<^verbatim>\<open>keys()\<close> lists each key once (only their number is used).
\<close>

type_synonym form = "(string \<times> string) list"

definition form_get :: "form \<Rightarrow> string \<Rightarrow> string option" where
  "form_get f k = map_of f k"

definition form_keys :: "form \<Rightarrow> string list" where
  "form_keys f = remdups (map fst f)"

definition startswith :: "string \<Rightarrow> string \<Rightarrow> bool" where
  "startswith s p = (take (length p) s = p)"

definition endswith :: "string \<Rightarrow> string \<Rightarrow> bool" where
  "endswith s p = (length p \<le> length s \<and> drop (length s - length p) s = p)"

text \<open>
  The answer after normalisation: the integer submitted, or the marker
  \<^verbatim>\<open>"Not answered"\<close> for a field that is missing, blank or rejected by \<^verbatim>\<open>int\<close> (the bare
  \<^verbatim>\<open>except\<close> swallows the exception).
\<close>

datatype answer = Not_answered | Answered int

definition read_answer :: "string option \<Rightarrow> answer" where
  "read_answer v =
     (case v of
        None \<Rightarrow> Not_answered
      | Some s \<Rightarrow>
          if strip s = [] then Not_answered
          else (case py_int s of Inl e \<Rightarrow> Not_answered | Inr n \<Rightarrow> Answered n))"

definition str_answer :: "answer \<Rightarrow> string" where
  "str_answer ans = (case ans of Not_answered \<Rightarrow> ''Not answered'' | Answered n \<Rightarrow> str_int n)"

text \<open>
  The expected result, recomputed from the echoed operands and operator: \<^verbatim>\<open>None\<close> for an
  operator that is none of the six symbols. The floor division \<^verbatim>\<open>a // b\<close> is unguarded.
\<close>

definition recompute :: "int \<Rightarrow> int \<Rightarrow> string option \<Rightarrow> py_error + int option" where
  "recompute x y op_symbol =
     (if op_symbol = Some ''+'' then Inr (Some (x + y))
      else if op_symbol = Some ''-'' then Inr (Some (x - y))
      else if op_symbol = Some ''*'' \<or> op_symbol = Some [CHR 0xD7] then Inr (Some (x * y))
      else if op_symbol = Some ''/'' \<or> op_symbol = Some [CHR 0xF7] then
        (if y = 0 then Inl ZeroDivisionError else Inr (Some (x div y)))
      else Inr None)"

definition str_int_option :: "int option \<Rightarrow> string" where
  "str_int_option v = (case v of None \<Rightarrow> ''None'' | Some n \<Rightarrow> str_int n)"

record feedback_item =
  fb_text :: string
  fb_correct :: bool

text \<open>
  The counters and the feedback list of the category at hand, as the loop carries them.
\<close>

record grading =
  items :: "feedback_item list"
  total_correct :: int
  total_questions :: int

text \<open>
  One turn of the inner loop of \<^verbatim>\<open>answers_route\<close>, for the exercise \<open>i\<close> of the category
  \<open>op\<close>. An exception ends the request.
\<close>

definition grade_one :: "form \<Rightarrow> string \<Rightarrow> nat \<Rightarrow> grading \<Rightarrow> py_error + grading" where
  "grade_one f op i g =
     (let key = op @ ''_'' @ str_nat i;
          user_answer = read_answer (form_get f key)
      in case py_int_opt (form_get f (key @ ''_a'')) of
           Inl e \<Rightarrow> Inl e
         | Inr x \<Rightarrow>
             (case py_int_opt (form_get f (key @ ''_b'')) of
                Inl e \<Rightarrow> Inl e
              | Inr y \<Rightarrow>
                  (let op_symbol = form_get f (key @ ''_op'')
                   in case recompute x y op_symbol of
                        Inl e \<Rightarrow> Inl e
                      | Inr correct \<Rightarrow>
                          (let tq = total_questions g + 1;
                               question_text =
                                 fmt_3d x @ '' '' @ str_of_option op_symbol @ '' '' @ fmt_3d y;
                               line = fmt_3d (int i + 1) @ ''. '' @ question_text @ '' = ''
                                 @ str_answer user_answer
                           in case user_answer of
                                Not_answered \<Rightarrow>
                                  Inr (g\<lparr>items := items g @ [\<lparr>fb_text = line, fb_correct = False\<rparr>],
                                         total_questions := tq\<rparr>)
                              | Answered n \<Rightarrow>
                                  if Some n = correct then
                                    Inr (g\<lparr>items := items g
                                             @ [\<lparr>fb_text = line @ '' -> Well done'', fb_correct = True\<rparr>],
                                           total_correct := total_correct g + 1,
                                           total_questions := tq\<rparr>)
                                  else
                                    Inr (g\<lparr>items := items g
                                             @ [\<lparr>fb_text = line @ '' -> Try again (expected ''
                                                   @ str_int_option correct @ '')'',
                                                 fb_correct = False\<rparr>],
                                           total_questions := tq\<rparr>)))))"

text \<open>The inner loop, over \<^verbatim>\<open>range(nb_ops)\<close>.\<close>

fun grade_range :: "form \<Rightarrow> string \<Rightarrow> nat list \<Rightarrow> grading \<Rightarrow> py_error + grading" where
  "grade_range f op [] g = Inr g"
| "grade_range f op (i # is) g =
     (case grade_one f op i g of
        Inl e \<Rightarrow> Inl e
      | Inr g1 \<Rightarrow> grade_range f op is g1)"

text \<open>
  The outer loop, over the categories. Each category starts an empty feedback list, and
  the number of its exercises is the number of form keys that start with the category and
  an underscore and end with \<^verbatim>\<open>_a\<close>. The two counters (\<open>tc\<close>, \<open>tq\<close>) run through all
  categories.
\<close>

definition nb_ops :: "form \<Rightarrow> string \<Rightarrow> nat" where
  "nb_ops f op =
     length (filter (\<lambda>key. startswith key (op @ ''_'') \<and> endswith key ''_a'') (form_keys f))"

fun grade_categories ::
  "form \<Rightarrow> string list \<Rightarrow> (string \<times> feedback_item list) list \<Rightarrow> int \<Rightarrow> int
     \<Rightarrow> py_error + (string \<times> feedback_item list) list \<times> int \<times> int" where
  "grade_categories f [] fb tc tq = Inr (fb, tc, tq)"
| "grade_categories f (op # ops) fb tc tq =
     (case grade_range f op [0 ..< nb_ops f op]
             \<lparr>items = [], total_correct = tc, total_questions = tq\<rparr> of
        Inl e \<Rightarrow> Inl e
      | Inr g \<Rightarrow>
          grade_categories f ops (fb @ [(op, items g)]) (total_correct g) (total_questions g))"

text \<open>
  \<^verbatim>\<open>answers_route\<close>. \<open>in_progress\<close> tells whether the stored exercises and their
  description are both present and non-empty. The page shows the feedback and the score;
  the copy kept for the later export is not modelled.
\<close>

datatype answers_page =
    Answers_redirect string
  | Answers_result "(string \<times> feedback_item list) list" int

definition answers_route :: "bool \<Rightarrow> bool \<Rightarrow> form \<Rightarrow> py_error + answers_page" where
  "answers_route logged_in in_progress f =
     (if \<not> logged_in then Inr (Answers_redirect ''/login'')
      else if \<not> in_progress then Inr (Answers_redirect ''/'')
      else
        (let selected_category = form_get f ''selected_category'';
             operations =
               (if selected_category = Some ''all''
                then [''addition'', ''subtraction'', ''multiplication'', ''division'']
                else [str_of_option selected_category])
         in case grade_categories f operations [] 0 0 of
              Inl e \<Rightarrow> Inl e
            | Inr (fb, tc, tq) \<Rightarrow>
                (case score tc tq of
                   Inl e \<Rightarrow> Inl e
                 | Inr sc \<Rightarrow> Inr (Answers_result fb sc))))"

text \<open>
  The two numbers that a feedback dictionary stands for: how many grading results it
  holds, and how many of them are marked correct.
\<close>

definition total_count :: "(string \<times> feedback_item list) list \<Rightarrow> int" where
  "total_count fb = int (length (concat (map snd fb)))"

definition correct_count :: "(string \<times> feedback_item list) list \<Rightarrow> int" where
  "correct_count fb = int (length (filter fb_correct (concat (map snd fb))))"

subsection \<open>Properties of the generator\<close>

lemma randint_bounds:
  assumes "low \<le> high"
  shows "\<exists>v. randint low high r = Inr v \<and> low \<le> v \<and> v \<le> high"
proof -
  have "0 < nat (high - low + 1)"
    using assms by simp
  then have "r mod nat (high - low + 1) < nat (high - low + 1)"
    by (rule mod_less_divisor)
  then have "int (r mod nat (high - low + 1)) < high - low + 1"
    by linarith
  then show ?thesis
    using assms by (simp add: randint_def)
qed

lemma div_range_levels:
  assumes "level \<in> set levels"
  shows "\<exists>b_high q_high. div_range level = Inr ((1, b_high), (0, q_high)) \<and> 1 \<le> b_high \<and> 0 \<le> q_high"
  using assms by (auto simp: levels_def div_range_def)

lemma add_sub_range_levels:
  assumes "level \<in> set levels"
  shows "\<exists>high. add_sub_range level = Inr (0, high) \<and> 0 \<le> high"
  using assms by (auto simp: levels_def add_sub_range_def)

lemma generate_division:
  assumes "level \<in> set levels"
  shows "\<exists>y q. 1 \<le> y \<and> 0 \<le> q \<and>
           generate_exercise ''division'' level r1 r2 = Inr (Some (mk_exercise (y * q) y [CHR 0xF7] q))"
proof -
  from div_range_levels [OF assms] obtain b_high q_high where
    rng: "div_range level = Inr ((1, b_high), (0, q_high))" and b: "1 \<le> b_high" and q: "0 \<le> q_high"
    by blast
  from randint_bounds [OF b, of r1] obtain y where y: "randint 1 b_high r1 = Inr y" "1 \<le> y"
    by blast
  from randint_bounds [OF q, of r2] obtain qt where qt: "randint 0 q_high r2 = Inr qt" "0 \<le> qt"
    by blast
  have "generate_exercise ''division'' level r1 r2 = Inr (Some (mk_exercise (y * qt) y [CHR 0xF7] qt))"
    by (simp add: generate_exercise_def rng y qt)
  with y qt show ?thesis by blast
qed

lemma generate_subtraction:
  assumes "level \<in> set levels"
  shows "\<exists>x y. 0 \<le> y \<and> y \<le> x \<and>
           generate_exercise ''subtraction'' level r1 r2 = Inr (Some (mk_exercise x y ''-'' (x - y)))"
proof -
  from add_sub_range_levels [OF assms] obtain high where
    rng: "add_sub_range level = Inr (0, high)" and h: "0 \<le> high"
    by blast
  from randint_bounds [OF h, of r1] obtain x where x: "randint 0 high r1 = Inr x" "0 \<le> x"
    by blast
  from randint_bounds [OF x(2), of r2] obtain y where y: "randint 0 x r2 = Inr y" "0 \<le> y" "y \<le> x"
    by blast
  have "generate_exercise ''subtraction'' level r1 r2 = Inr (Some (mk_exercise x y ''-'' (x - y)))"
    by (simp add: generate_exercise_def rng x y)
  with y show ?thesis by blast
qed

text \<open>
  C2. At each of the five levels, whatever is drawn, \<^verbatim>\<open>generate_exercise\<close> returns a
  division exercise whose dividend is the divisor times the reported result: the division
  leaves no remainder, and the reported result is its quotient.
\<close>

theorem division_is_exact:
  assumes "level \<in> set levels"
  shows "\<exists>ex. generate_exercise ''division'' level r1 r2 = Inr (Some ex)
           \<and> ex_a ex = ex_b ex * ex_result ex
           \<and> ex_a ex mod ex_b ex = 0
           \<and> ex_a ex div ex_b ex = ex_result ex"
proof -
  from generate_division [OF assms, of r1 r2] obtain y q where
    "1 \<le> y" and "generate_exercise ''division'' level r1 r2 = Inr (Some (mk_exercise (y * q) y [CHR 0xF7] q))"
    by blast
  then show ?thesis
    by (simp add: mk_exercise_def)
qed

theorem division_is_exact_witness:
  "''expert'' \<in> set levels
     \<and> (\<exists>ex. generate_exercise ''division'' ''expert'' 123456 98765 = Inr (Some ex)
           \<and> ex_a ex = ex_b ex * ex_result ex
           \<and> ex_a ex mod ex_b ex = 0
           \<and> ex_a ex div ex_b ex = ex_result ex)"
proof -
  have h: "''expert'' \<in> set levels" by (simp add: levels_def)
  show ?thesis using h division_is_exact [OF h, of 123456 98765] by simp
qed

text \<open>
  C3. At each of the five levels, whatever is drawn, \<^verbatim>\<open>generate_exercise\<close> returns a
  subtraction exercise whose second operand does not exceed the first and whose result is
  their difference, which is not negative.
\<close>

theorem subtraction_never_negative:
  assumes "level \<in> set levels"
  shows "\<exists>ex. generate_exercise ''subtraction'' level r1 r2 = Inr (Some ex)
           \<and> ex_b ex \<le> ex_a ex
           \<and> ex_result ex = ex_a ex - ex_b ex
           \<and> 0 \<le> ex_result ex"
proof -
  from generate_subtraction [OF assms, of r1 r2] obtain x y where
    "y \<le> x" and "generate_exercise ''subtraction'' level r1 r2 = Inr (Some (mk_exercise x y ''-'' (x - y)))"
    by blast
  then show ?thesis
    by (simp add: mk_exercise_def)
qed

theorem subtraction_never_negative_witness:
  "''easy'' \<in> set levels
     \<and> (\<exists>ex. generate_exercise ''subtraction'' ''easy'' 7 9 = Inr (Some ex)
           \<and> ex_b ex \<le> ex_a ex
           \<and> ex_result ex = ex_a ex - ex_b ex
           \<and> 0 \<le> ex_result ex)"
proof -
  have h: "''easy'' \<in> set levels" by (simp add: levels_def)
  show ?thesis using h subtraction_never_negative [OF h, of 7 9] by simp
qed

text \<open>
  C10. At each of the five levels a generated division exercise has a divisor of at least
  one. The grader's recomputation for the division sign divides without a guard: it raises
  \<^verbatim>\<open>ZeroDivisionError\<close> exactly for the divisor zero, so on a generated exercise it returns,
  and what it returns is the reported result.
\<close>

theorem division_divisor_positive:
  assumes "level \<in> set levels"
  shows "\<exists>ex. generate_exercise ''division'' level r1 r2 = Inr (Some ex)
           \<and> 1 \<le> ex_b ex
           \<and> ex_op ex = [CHR 0xF7]
           \<and> recompute (ex_a ex) (ex_b ex) (Some (ex_op ex)) = Inr (Some (ex_result ex))
           \<and> (\<forall>x y. recompute x y (Some (ex_op ex)) = Inl ZeroDivisionError \<longleftrightarrow> y = 0)"
proof -
  from generate_division [OF assms, of r1 r2] obtain y q where
    "1 \<le> y" and "generate_exercise ''division'' level r1 r2 = Inr (Some (mk_exercise (y * q) y [CHR 0xF7] q))"
    by blast
  then show ?thesis
    by (simp add: mk_exercise_def recompute_def)
qed

theorem division_divisor_positive_witness:
  "''hard'' \<in> set levels
     \<and> (\<exists>ex. generate_exercise ''division'' ''hard'' 40 41 = Inr (Some ex)
           \<and> 1 \<le> ex_b ex
           \<and> ex_op ex = [CHR 0xF7]
           \<and> recompute (ex_a ex) (ex_b ex) (Some (ex_op ex)) = Inr (Some (ex_result ex))
           \<and> (\<forall>x y. recompute x y (Some (ex_op ex)) = Inl ZeroDivisionError \<longleftrightarrow> y = 0))"
proof -
  have h: "''hard'' \<in> set levels" by (simp add: levels_def)
  show ?thesis using h division_divisor_positive [OF h, of 40 41] by simp
qed

subsection \<open>Properties of the plan tracker\<close>

lemma setdefault_fields [simp]:
  "plan (snd (setdefault_usage_count ud)) = plan ud"
  "plan_start (snd (setdefault_usage_count ud)) = plan_start ud"
  "usage_count (snd (setdefault_usage_count ud)) = Some (current_usage ud)"
  "fst (setdefault_usage_count ud) = current_usage ud"
  by (simp_all add: setdefault_usage_count_def current_usage_def split: option.splits)

lemma current_usage_stored [simp]:
  "current_usage (ud\<lparr>usage_count := Some uc\<rparr>) = uc"
  "current_usage (snd (setdefault_usage_count ud)) = current_usage ud"
  by (simp_all add: setdefault_usage_count_def current_usage_def split: option.splits)

lemma usage_ok_key:
  assumes "usage_ok ud" and "k \<in> set (''total'' # levels)"
  shows "\<exists>n. current_usage ud k = Some n \<and> 0 \<le> n"
proof (cases "usage_count ud")
  case None
  then have "current_usage ud = default_usage"
    by (simp add: current_usage_def setdefault_usage_count_def)
  with assms(2) show ?thesis
    by (auto simp: default_usage_def levels_def)
next
  case (Some uc)
  then have cu: "current_usage ud = uc"
    by (simp add: current_usage_def setdefault_usage_count_def)
  from assms Some have "case uc k of None \<Rightarrow> False | Some n \<Rightarrow> 0 \<le> n"
    unfolding usage_ok_def list_all_iff by auto
  then show ?thesis
    by (simp add: cu split: option.splits)
qed

lemma usage_okI:
  assumes "\<And>k. k \<in> set (''total'' # levels) \<Longrightarrow> \<exists>n. uc k = Some n \<and> 0 \<le> n"
  shows "usage_ok (ud\<lparr>usage_count := Some uc\<rparr>)"
proof -
  have "case uc k of None \<Rightarrow> False | Some n \<Rightarrow> 0 \<le> n" if "k \<in> set (''total'' # levels)" for k
    using assms [OF that] by auto
  then show ?thesis
    unfolding usage_ok_def list_all_iff by simp
qed

lemma usage_ok_setdefault: "usage_ok ud \<Longrightarrow> usage_ok (snd (setdefault_usage_count ud))"
  by (auto simp: usage_ok_def setdefault_usage_count_def default_usage_def levels_def split: option.splits)

lemma can_use_plan_free:
  assumes "us email = Some ud" and "plan ud = Some ''free''"
  shows "can_use_plan email level us
           = (Inr (usage_get (current_usage ud) level < 1), us(email \<mapsto> snd (setdefault_usage_count ud)))"
  using assms by (simp add: can_use_plan_def can_use_plan_body_def split_beta)

lemma can_use_plan_monthly:
  assumes "us email = Some ud" and "plan ud = Some ''monthly''"
  shows "can_use_plan email level us = (Inr True, us(email \<mapsto> snd (setdefault_usage_count ud)))"
  using assms by (simp add: can_use_plan_def can_use_plan_body_def split_beta)

lemma can_use_plan_twenty:
  assumes "us email = Some ud" and "plan ud = Some ''twenty''" and "current_usage ud ''total'' = Some t"
  shows "can_use_plan email level us = (Inr (t < 20), us(email \<mapsto> snd (setdefault_usage_count ud)))"
  using assms by (simp add: can_use_plan_def can_use_plan_body_def split_beta)

lemma track_usage_free:
  assumes "us email = Some ud" and "plan ud = Some ''free''" and "current_usage ud level = Some n"
  shows "track_usage email level us
           = (Inr (), us(email \<mapsto> (snd (setdefault_usage_count ud))
                \<lparr>usage_count := Some ((current_usage ud)(level \<mapsto> n + 1))\<rparr>))"
  using assms by (simp add: track_usage_def track_usage_body_def usage_incr_def split_beta)

lemma track_usage_twenty:
  assumes "us email = Some ud" and "plan ud = Some ''twenty''"
    and "current_usage ud ''total'' = Some t" and "current_usage ud level = Some n" and "level \<noteq> ''total''"
  shows "track_usage email level us
           = (Inr (), us(email \<mapsto> (snd (setdefault_usage_count ud))
                \<lparr>usage_count := Some ((current_usage ud)(''total'' \<mapsto> t + 1, level \<mapsto> n + 1))\<rparr>))"
  using assms by (simp add: track_usage_def track_usage_body_def usage_incr_def split_beta)

lemma level_not_total: "level \<in> set levels \<Longrightarrow> level \<noteq> ''total''"
  by (auto simp: levels_def)

lemma track_usage_twenty_step:
  assumes "us email = Some ud" and "plan ud = Some ''twenty''" and "usage_ok ud"
    and "level \<in> set levels"
  shows "\<exists>us1 ud1. track_usage email level us = (Inr (), us1) \<and> us1 email = Some ud1
           \<and> plan ud1 = Some ''twenty'' \<and> usage_ok ud1
           \<and> usage_get (current_usage ud1) ''total'' = usage_get (current_usage ud) ''total'' + 1
           \<and> usage_get (current_usage ud1) level = usage_get (current_usage ud) level + 1"
proof -
  from usage_ok_key [OF assms(3), of "''total''"] obtain t where
    t: "current_usage ud ''total'' = Some t" "0 \<le> t"
    by auto
  from usage_ok_key [OF assms(3), of level] assms(4) obtain n where
    n: "current_usage ud level = Some n" "0 \<le> n"
    by auto
  have ne: "level \<noteq> ''total''"
    using assms(4) by (rule level_not_total)
  let ?uc1 = "(current_usage ud)(''total'' \<mapsto> t + 1, level \<mapsto> n + 1)"
  let ?ud1 = "(snd (setdefault_usage_count ud))\<lparr>usage_count := Some ?uc1\<rparr>"
  have tr: "track_usage email level us = (Inr (), us(email \<mapsto> ?ud1))"
    using assms(1,2) t(1) n(1) ne by (rule track_usage_twenty)
  have ok: "usage_ok ?ud1"
  proof (rule usage_okI)
    fix k assume k: "k \<in> set (''total'' # levels)"
    from usage_ok_key [OF assms(3) k] obtain m where "current_usage ud k = Some m" "0 \<le> m"
      by blast
    then show "\<exists>m. ?uc1 k = Some m \<and> 0 \<le> m"
      using t(2) n(2) by simp
  qed
  have "plan ?ud1 = Some ''twenty''"
    using assms(2) by simp
  moreover have "usage_get (current_usage ?ud1) ''total'' = usage_get (current_usage ud) ''total'' + 1"
    using ne t(1) by (simp add: usage_get_def)
  moreover have "usage_get (current_usage ?ud1) level = usage_get (current_usage ud) level + 1"
    using n(1) by (simp add: usage_get_def)
  ultimately show ?thesis
    using tr ok by simp
qed

lemma track_usage_all_twenty:
  assumes "set ls \<subseteq> set levels"
  shows "us email = Some ud \<Longrightarrow> plan ud = Some ''twenty'' \<Longrightarrow> usage_ok ud \<Longrightarrow>
         \<exists>us1 ud1. track_usage_all email ls us = (Inr (), us1) \<and> us1 email = Some ud1
           \<and> plan ud1 = Some ''twenty'' \<and> usage_ok ud1
           \<and> usage_get (current_usage ud1) ''total''
               = usage_get (current_usage ud) ''total'' + int (length ls)"
  using assms
proof (induction ls arbitrary: us ud)
  case Nil
  then show ?case by simp
next
  case (Cons level ls)
  from Cons.prems have lv: "level \<in> set levels" and rest: "set ls \<subseteq> set levels"
    by simp_all
  from track_usage_twenty_step [of us email ud level, OF Cons.prems(1,2,3) lv] obtain us1 ud1 where
    s1: "track_usage email level us = (Inr (), us1)" "us1 email = Some ud1"
      "plan ud1 = Some ''twenty''" "usage_ok ud1"
      "usage_get (current_usage ud1) ''total'' = usage_get (current_usage ud) ''total'' + 1"
    by blast
  from Cons.IH [of us1 ud1, OF s1(2,3,4) rest] obtain us2 ud2 where
    s2: "track_usage_all email ls us1 = (Inr (), us2)" "us2 email = Some ud2"
      "plan ud2 = Some ''twenty''" "usage_ok ud2"
      "usage_get (current_usage ud2) ''total''
         = usage_get (current_usage ud1) ''total'' + int (length ls)"
    by blast
  have "track_usage_all email (level # ls) us = (Inr (), us2)"
    by (simp add: s1(1) s2(1))
  moreover have "usage_get (current_usage ud2) ''total''
      = usage_get (current_usage ud) ''total'' + int (length (level # ls))"
    using s1(5) s2(5) by simp
  ultimately show ?case
    using s2(2,3,4) by blast
qed

lemma can_use_plan_twenty_total:
  assumes "us email = Some ud" and "plan ud = Some ''twenty''" and "usage_ok ud"
  shows "fst (can_use_plan email level us) = Inr (usage_get (current_usage ud) ''total'' < 20)"
proof -
  from usage_ok_key [OF assms(3), of "''total''"] obtain t where
    t: "current_usage ud ''total'' = Some t"
    by auto
  show ?thesis
    by (simp add: can_use_plan_twenty [of us email ud t, OF assms(1,2) t] usage_get_def t)
qed

lemma can_use_dict_monthly:
  assumes "us email = Some ud" and "plan ud = Some ''monthly''" and "usage_count ud = Some uc"
  shows "can_use_dict email ls us = (Inr (map (\<lambda>l. (l, True)) ls), us)"
proof -
  have sd: "snd (setdefault_usage_count ud) = ud"
    using assms(3) by (simp add: setdefault_usage_count_def)
  have one: "can_use_plan email l us = (Inr True, us)" for l
    using can_use_plan_monthly [of us email ud l, OF assms(1,2)] assms(1) by (simp add: sd map_upd_triv)
  show ?thesis
    by (induction ls) (simp_all add: one)
qed

lemma index_get_selection_monthly:
  "index_get_selection email ud ''monthly'' us
     = (if plan ud = Some ''monthly'' then
          (Inr (Selection ''monthly'' (current_usage ud) (map (\<lambda>l. (l, True)) levels), []),
           us(email \<mapsto> snd (setdefault_usage_count ud)))
        else index_get_selection email ud ''monthly'' us)"
proof (cases "plan ud = Some ''monthly''")
  case True
  let ?ud2 = "snd (setdefault_usage_count ud)"
  have "can_use_dict email levels (us(email \<mapsto> ?ud2))
          = (Inr (map (\<lambda>l. (l, True)) levels), us(email \<mapsto> ?ud2))"
    by (rule can_use_dict_monthly [of _ _ ?ud2 "current_usage ud"]) (simp_all add: True)
  then show ?thesis
    using True by (simp add: index_get_selection_def split_beta)
next
  case False
  then show ?thesis by simp
qed

text \<open>
  The shape \<open>usage_ok\<close> is an invariant of the accounts: a registered account has it, and
  \<^verbatim>\<open>can_use_plan\<close>, \<^verbatim>\<open>track_usage\<close> (at any level, also when it raises), \<^verbatim>\<open>choose_plan\<close>,
  \<^verbatim>\<open>update_activation_after_payment\<close> and \<^verbatim>\<open>index_get\<close> keep it for every account.
\<close>

lemma usage_ok_registered: "usage_ok (registered bd)"
  by (simp add: usage_ok_def registered_def)

lemma usage_ok_cong:
  "usage_count ud1 = usage_count ud \<Longrightarrow> usage_ok ud1 = usage_ok ud"
  by (simp add: usage_ok_def)

lemma usage_ok_incr:
  assumes "usage_ok (ud\<lparr>usage_count := Some uc\<rparr>)" and "usage_incr uc k = Inr uc1"
  shows "usage_ok (ud\<lparr>usage_count := Some uc1\<rparr>)"
proof -
  from assms(2) obtain n where n: "uc k = Some n" "uc1 = uc(k \<mapsto> n + 1)"
    by (auto simp: usage_incr_def split: option.splits)
  have "case uc1 j of None \<Rightarrow> False | Some m \<Rightarrow> 0 \<le> m" if j: "j \<in> set (''total'' # levels)" for j
  proof -
    from assms(1) j have "case uc j of None \<Rightarrow> False | Some m \<Rightarrow> 0 \<le> m"
      unfolding usage_ok_def list_all_iff by auto
    then show ?thesis
      using n by (auto split: option.splits)
  qed
  then show ?thesis
    unfolding usage_ok_def list_all_iff by simp
qed

lemma setdefault_usage_ok:
  assumes "usage_ok ud"
  shows "usage_ok ((snd (setdefault_usage_count ud))\<lparr>usage_count := Some (current_usage ud)\<rparr>)"
proof -
  have "usage_ok (snd (setdefault_usage_count ud))"
    using assms by (rule usage_ok_setdefault)
  then show ?thesis
    by (simp add: usage_ok_def)
qed

lemma can_use_plan_body_usage_ok:
  assumes "usage_ok ud"
  shows "usage_ok (snd (can_use_plan_body ud level))"
proof -
  have "snd (can_use_plan_body ud level) = snd (setdefault_usage_count ud)"
    by (simp add: can_use_plan_body_def split_beta split: option.splits)
  with usage_ok_setdefault [OF assms] show ?thesis by simp
qed

lemma track_usage_body_usage_ok:
  assumes "usage_ok ud"
  shows "usage_ok (snd (track_usage_body ud level))"
proof -
  let ?ud = "snd (setdefault_usage_count ud)"
  note ok = setdefault_usage_ok [OF assms]
  have sd: "usage_ok ?ud"
    using assms by (rule usage_ok_setdefault)
  have one: "usage_ok (?ud\<lparr>usage_count := Some uc1\<rparr>)"
    if "usage_incr (current_usage ud) k = Inr uc1" for k uc1
    using usage_ok_incr [OF ok that] by simp
  have two: "usage_ok (?ud\<lparr>usage_count := Some uc2\<rparr>)"
    if "usage_incr (current_usage ud) k = Inr uc1" "usage_incr uc1 j = Inr uc2" for k j uc1 uc2
    using usage_ok_incr [OF one [OF that(1)], of j uc2] that(2) by simp
  show ?thesis
    using sd one two
    by (auto simp: track_usage_body_def split_beta split: option.splits sum.splits)
qed

lemma can_use_plan_usage_ok:
  assumes "\<And>e ud. us e = Some ud \<Longrightarrow> usage_ok ud"
    and "snd (can_use_plan email level us) e = Some ud"
  shows "usage_ok ud"
  using assms can_use_plan_body_usage_ok
  by (auto simp: can_use_plan_def split_beta split: option.splits if_splits)

lemma track_usage_usage_ok:
  assumes "\<And>e ud. us e = Some ud \<Longrightarrow> usage_ok ud"
    and "snd (track_usage email level us) e = Some ud"
  shows "usage_ok ud"
  using assms track_usage_body_usage_ok
  by (auto simp: track_usage_def split_beta split: option.splits if_splits)

lemma choose_plan_usage_ok:
  assumes "\<And>e ud. us e = Some ud \<Longrightarrow> usage_ok ud"
    and "snd (choose_plan session_user meth form_plan us) e = Some ud"
  shows "usage_ok ud"
proof -
  have "usage_ok (snd (setdefault_usage_count (ud0\<lparr>plan := p\<rparr>)))" if "usage_ok ud0" for ud0 p
  proof -
    have "usage_ok (ud0\<lparr>plan := p\<rparr>)"
      using that by (simp add: usage_ok_def)
    then show ?thesis by (rule usage_ok_setdefault)
  qed
  with assms show ?thesis
    by (auto simp: choose_plan_def Let_def split: option.splits if_splits)
qed

lemma usage_ok_other_fields [simp]:
  "usage_ok (ud\<lparr>plan := p\<rparr>) = usage_ok ud"
  "usage_ok (ud\<lparr>plan_start := s\<rparr>) = usage_ok ud"
  "usage_ok (ud\<lparr>activation_id := a\<rparr>) = usage_ok ud"
  by (simp_all add: usage_ok_def)

lemma update_activation_usage_ok:
  assumes "\<And>e ud. us e = Some ud \<Longrightarrow> usage_ok ud"
    and "snd (update_activation_after_payment p session_user now now_str us) e = Some ud"
  shows "usage_ok ud"
  using assms
  by (auto simp: update_activation_after_payment_def Let_def split: option.splits if_splits)

lemma can_use_dict_usage_ok:
  assumes "\<And>e ud. us e = Some ud \<Longrightarrow> usage_ok ud"
    and "snd (can_use_dict email ls us) e = Some ud"
  shows "usage_ok ud"
  using assms
proof (induction ls arbitrary: us)
  case Nil
  then show ?case by simp
next
  case (Cons lvl ls)
  obtain r us1 where c: "can_use_plan email lvl us = (r, us1)"
    by (cases "can_use_plan email lvl us")
  have ok1: "usage_ok ud1" if "us1 e1 = Some ud1" for e1 ud1
    using can_use_plan_usage_ok [of us email lvl e1 ud1] Cons.prems(1) c that by simp
  show ?case
  proof (cases r)
    case (Inl x)
    with c Cons.prems(2) ok1 show ?thesis by simp
  next
    case (Inr ok)
    obtain r2 us2 where d: "can_use_dict email ls us1 = (r2, us2)"
      by (cases "can_use_dict email ls us1")
    from Cons.prems(2) c Inr d have "us2 e = Some ud"
      by (simp split: sum.splits)
    with Cons.IH [of us1] ok1 d show ?thesis by simp
  qed
qed


lemma index_get_selection_users:
  "snd (index_get_selection email ud0 p us)
     = (if p = ''free'' \<and> all_exhausted (current_usage ud0)
        then us(email \<mapsto> snd (setdefault_usage_count ud0))
        else snd (can_use_dict email levels
               (us(email \<mapsto> snd (setdefault_usage_count
                     (if p = ''free'' then snd (setdefault_usage_count ud0) else ud0))))))"
proof -
  obtain r us1 where d: "can_use_dict email levels
               (us(email \<mapsto> snd (setdefault_usage_count
                     (if p = ''free'' then snd (setdefault_usage_count ud0) else ud0)))) = (r, us1)"
    by (cases "can_use_dict email levels
               (us(email \<mapsto> snd (setdefault_usage_count
                     (if p = ''free'' then snd (setdefault_usage_count ud0) else ud0))))")
  show ?thesis
  proof (cases "p = ''free''")
    case True
    with d show ?thesis
      by (cases r) (simp_all add: index_get_selection_def split_beta)
  next
    case False
    with d show ?thesis
      by (cases r) (simp_all add: index_get_selection_def split_beta)
  qed
qed

lemma index_get_selection_usage_ok:
  assumes "\<And>e ud. us e = Some ud \<Longrightarrow> usage_ok ud" and "usage_ok ud0"
    and "snd (index_get_selection email ud0 p us) e = Some ud"
  shows "usage_ok ud"
proof -
  have upd: "usage_ok ud2" if "usage_ok x" "(us(email \<mapsto> x)) e2 = Some ud2" for x e2 ud2
    using that assms(1) by (cases "e2 = email") simp_all
  have oka: "usage_ok (snd (setdefault_usage_count ud0))"
    using assms(2) by (rule usage_ok_setdefault)
  show ?thesis
  proof (cases "p = ''free'' \<and> all_exhausted (current_usage ud0)")
    case True
    with assms(3) have "(us(email \<mapsto> snd (setdefault_usage_count ud0))) e = Some ud"
      by (simp add: index_get_selection_users)
    with oka show ?thesis by (rule upd)
  next
    case False
    let ?x = "snd (setdefault_usage_count (if p = ''free'' then snd (setdefault_usage_count ud0) else ud0))"
    have okx: "usage_ok ?x"
      using oka assms(2) by (simp add: usage_ok_setdefault)
    from assms(3) have "snd (can_use_dict email levels (us(email \<mapsto> ?x))) e = Some ud"
      unfolding index_get_selection_users using False by (simp split: if_splits)
    then show ?thesis
      using can_use_dict_usage_ok [of "us(email \<mapsto> ?x)" email levels e ud] upd [OF okx] by blast
  qed
qed

lemma index_get_usage_ok:
  assumes "\<And>e ud. us e = Some ud \<Longrightarrow> usage_ok ud"
    and "snd (index_get session_user now us) e = Some ud"
  shows "usage_ok ud"
proof (cases session_user)
  case None
  with assms show ?thesis by (simp add: index_get_def)
next
  case (Some email)
  show ?thesis
  proof (cases "us email")
    case None
    with Some assms show ?thesis by (simp add: index_get_def)
  next
    case ud0: (Some ud0)
    have ok0: "usage_ok ud0"
      using assms(1) ud0 by simp
    show ?thesis
    proof (cases "plan ud0")
      case None
      with Some ud0 assms show ?thesis by (simp add: index_get_def)
    next
      case p: (Some p)
      have sel: "usage_ok ud" if "snd (index_get_selection email ud0 p us) e = Some ud"
        using assms(1) ok0 that by (rule index_get_selection_usage_ok)
      show ?thesis
      proof (cases "p = ''monthly''")
        case False
        with Some ud0 p assms(2) sel show ?thesis by (simp add: index_get_def)
      next
        case True
        show ?thesis
        proof (cases "plan_start ud0")
          case None
          with True Some ud0 p assms show ?thesis by (simp add: index_get_def)
        next
          case st: (Some start)
          show ?thesis
          proof (cases "now > start + timedelta_days 30")
            case False
            with True st Some ud0 p assms(2) sel show ?thesis by (simp add: index_get_def)
          next
            case late: True
            with True st Some ud0 p assms(2)
            have "(us(email \<mapsto> ud0\<lparr>plan := None, plan_start := None\<rparr>)) e = Some ud"
              by (simp add: index_get_def)
            then show ?thesis
              using ok0 assms(1) by (cases "e = email") auto
          qed
        qed
      qed
    qed
  qed
qed

text \<open>
  C1, as stated, fails: for an account without the key \<^verbatim>\<open>plan\<close>, such as a freshly
  registered one, \<^verbatim>\<open>can_use_plan\<close> does not return false. The lookup
  \<^verbatim>\<open>user_data["plan"]\<close> raises \<^verbatim>\<open>KeyError\<close>.
\<close>

theorem no_plan_raises_counterexample:
  "fst (can_use_plan ''a@b.c'' ''easy'' [''a@b.c'' \<mapsto> registered None]) = Inl KeyError
     \<and> fst (can_use_plan ''a@b.c'' ''easy'' [''a@b.c'' \<mapsto> registered None]) \<noteq> Inr False"
  by (simp add: can_use_plan_def can_use_plan_body_def setdefault_usage_count_def registered_def)

text \<open>
  C1, amended. For every account without the key \<^verbatim>\<open>plan\<close> and every level,
  \<^verbatim>\<open>can_use_plan\<close> authorises nothing: it raises \<^verbatim>\<open>KeyError\<close>, having stored the default
  counters. The route \<^verbatim>\<open>index_get\<close>, which asks \<^verbatim>\<open>can_use_plan\<close> for every level, tests
  for the missing plan first and sends such an account to the plan selection, with the
  accounts untouched.
\<close>

theorem no_plan_never_authorised:
  assumes "us email = Some ud" and "plan ud = None"
  shows "can_use_plan email level us = (Inl KeyError, us(email \<mapsto> snd (setdefault_usage_count ud)))
           \<and> index_get (Some email) now us = (Inr (Redirect ''/choose_plan'', []), us)"
  using assms
  by (simp add: can_use_plan_def can_use_plan_body_def index_get_def split_beta)

theorem no_plan_never_authorised_witness:
  "[''a@b.c'' \<mapsto> registered None] ''a@b.c'' = Some (registered None)
     \<and> plan (registered None) = None
     \<and> fst (can_use_plan ''a@b.c'' ''hard'' [''a@b.c'' \<mapsto> registered None]) = Inl KeyError
     \<and> index_get (Some ''a@b.c'') 0 [''a@b.c'' \<mapsto> registered None]
          = (Inr (Redirect ''/choose_plan'', []), [''a@b.c'' \<mapsto> registered None])"
proof -
  have h1: "[''a@b.c'' \<mapsto> registered None] ''a@b.c'' = Some (registered None)"
    by simp
  have h2: "plan (registered None) = None"
    by (simp add: registered_def)
  show ?thesis
    using h1 h2 no_plan_never_authorised [of "[''a@b.c'' \<mapsto> registered None]" "''a@b.c''" "registered None" "''hard''" 0, OF h1 h2] by simp
qed

text \<open>
  C4. For an account on the free plan and a level, \<^verbatim>\<open>can_use_plan\<close> returns true exactly
  when the counter of that level is below one. One \<^verbatim>\<open>track_usage\<close> at the level succeeds;
  afterwards \<^verbatim>\<open>can_use_plan\<close> is false for that level and still true for every other
  level whose counter is zero. The counters are those that the program produces
  (\<open>usage_ok\<close>: registration, \<^verbatim>\<open>setdefault\<close> and the increments yield nothing else).
\<close>

theorem free_plan_one_use_per_level:
  assumes "us email = Some ud" and "plan ud = Some ''free''" and "usage_ok ud" and "level \<in> set levels"
  shows "fst (can_use_plan email level us) = Inr (usage_get (current_usage ud) level < 1)
     \<and> (\<exists>us1. track_usage email level us = (Inr (), us1)
          \<and> fst (can_use_plan email level us1) = Inr False
          \<and> (\<forall>other \<in> set levels. other \<noteq> level \<and> usage_get (current_usage ud) other = 0
                \<longrightarrow> fst (can_use_plan email other us1) = Inr True))"
proof -
  from usage_ok_key [OF assms(3), of level] assms(4) obtain n where
    n: "current_usage ud level = Some n" "0 \<le> n"
    by auto
  let ?ud1 = "(snd (setdefault_usage_count ud))\<lparr>usage_count := Some ((current_usage ud)(level \<mapsto> n + 1))\<rparr>"
  let ?us1 = "us(email \<mapsto> ?ud1)"
  have tr: "track_usage email level us = (Inr (), ?us1)"
    using assms(1,2) n(1) by (rule track_usage_free)
  have p1: "?us1 email = Some ?ud1" "plan ?ud1 = Some ''free''"
    using assms(2) by simp_all
  have a: "fst (can_use_plan email level ?us1) = Inr False"
    using n(2) by (simp add: can_use_plan_free [of ?us1 email ?ud1, OF p1] usage_get_def)
  have b: "fst (can_use_plan email other ?us1) = Inr True"
    if "other \<noteq> level" "usage_get (current_usage ud) other = 0" for other
    using that by (simp add: can_use_plan_free [of ?us1 email ?ud1, OF p1] usage_get_def)
  show ?thesis
    using tr a b by (simp add: can_use_plan_free [of us email ud, OF assms(1,2)])
qed

theorem free_plan_one_use_per_level_witness:
  "\<exists>us1. track_usage ''a@b.c'' ''easy'' [''a@b.c'' \<mapsto> (registered None)\<lparr>plan := Some ''free''\<rparr>]
            = (Inr (), us1)
     \<and> fst (can_use_plan ''a@b.c'' ''easy'' [''a@b.c'' \<mapsto> (registered None)\<lparr>plan := Some ''free''\<rparr>])
          = Inr True
     \<and> fst (can_use_plan ''a@b.c'' ''easy'' us1) = Inr False
     \<and> fst (can_use_plan ''a@b.c'' ''hard'' us1) = Inr True"
proof -
  let ?ud = "(registered None)\<lparr>plan := Some ''free''\<rparr>"
  let ?us = "[''a@b.c'' \<mapsto> ?ud]"
  have h1: "?us ''a@b.c'' = Some ?ud"
    by simp
  have h2: "plan ?ud = Some ''free''"
    by simp
  have h3: "usage_ok ?ud"
    by (simp add: usage_ok_def registered_def)
  have h4: "''easy'' \<in> set levels" "''hard'' \<in> set levels"
    by (simp_all add: levels_def)
  have cu: "usage_get (current_usage ?ud) ''easy'' = 0" "usage_get (current_usage ?ud) ''hard'' = 0"
    by (simp_all add: usage_get_def current_usage_def setdefault_usage_count_def registered_def
        default_usage_def)
  from free_plan_one_use_per_level [of ?us "''a@b.c''" ?ud "''easy''", OF h1 h2 h3 h4(1)] h4(2) cu
  show ?thesis
    by auto
qed

text \<open>
  C5. For an account on the plan \<^verbatim>\<open>twenty\<close>, \<^verbatim>\<open>can_use_plan\<close> returns true exactly when the
  total counter is below twenty, whatever the level. One \<^verbatim>\<open>track_usage\<close> at a level adds
  one to the total and one to the counter of the level. After twenty calls of
  \<^verbatim>\<open>track_usage\<close>, at any mix of levels, \<^verbatim>\<open>can_use_plan\<close> is false for every level.
\<close>

theorem twenty_plan_limit:
  assumes "us email = Some ud" and "plan ud = Some ''twenty''" and "usage_ok ud"
  shows "(\<forall>level. fst (can_use_plan email level us)
                    = Inr (usage_get (current_usage ud) ''total'' < 20))
     \<and> (\<forall>level \<in> set levels. \<exists>us1 ud1.
            track_usage email level us = (Inr (), us1) \<and> us1 email = Some ud1
          \<and> usage_get (current_usage ud1) ''total'' = usage_get (current_usage ud) ''total'' + 1
          \<and> usage_get (current_usage ud1) level = usage_get (current_usage ud) level + 1)
     \<and> (\<forall>ls. set ls \<subseteq> set levels \<and> length ls = 20 \<longrightarrow>
            (\<exists>us1. track_usage_all email ls us = (Inr (), us1)
               \<and> (\<forall>level \<in> set levels. fst (can_use_plan email level us1) = Inr False)))"
proof (intro conjI allI ballI impI)
  fix level
  show "fst (can_use_plan email level us) = Inr (usage_get (current_usage ud) ''total'' < 20)"
    using assms by (rule can_use_plan_twenty_total)
next
  fix level assume "level \<in> set levels"
  from track_usage_twenty_step [of us email ud level, OF assms this]
  show "\<exists>us1 ud1. track_usage email level us = (Inr (), us1) \<and> us1 email = Some ud1
          \<and> usage_get (current_usage ud1) ''total'' = usage_get (current_usage ud) ''total'' + 1
          \<and> usage_get (current_usage ud1) level = usage_get (current_usage ud) level + 1"
    by blast
next
  fix ls assume ls: "set ls \<subseteq> set levels \<and> length ls = 20"
  from usage_ok_key [OF assms(3), of "''total''"] have nonneg: "0 \<le> usage_get (current_usage ud) ''total''"
    by (auto simp: usage_get_def)
  from ls track_usage_all_twenty [of ls us email ud, OF _ assms] obtain us1 ud1 where
    s: "track_usage_all email ls us = (Inr (), us1)" "us1 email = Some ud1"
      "plan ud1 = Some ''twenty''" "usage_ok ud1"
      "usage_get (current_usage ud1) ''total'' = usage_get (current_usage ud) ''total'' + 20"
    by auto
  have "fst (can_use_plan email level us1) = Inr False" for level
    using can_use_plan_twenty_total [of us1 email ud1 level, OF s(2,3,4)] s(5) nonneg by simp
  with s(1) show "\<exists>us1. track_usage_all email ls us = (Inr (), us1)
               \<and> (\<forall>level \<in> set levels. fst (can_use_plan email level us1) = Inr False)"
    by blast
qed

theorem twenty_plan_limit_witness:
  "\<exists>us1. track_usage_all ''a@b.c'' (concat (replicate 4 levels))
            [''a@b.c'' \<mapsto> (registered None)\<lparr>plan := Some ''twenty''\<rparr>] = (Inr (), us1)
     \<and> fst (can_use_plan ''a@b.c'' ''easy''
              [''a@b.c'' \<mapsto> (registered None)\<lparr>plan := Some ''twenty''\<rparr>]) = Inr True
     \<and> fst (can_use_plan ''a@b.c'' ''easy'' us1) = Inr False
     \<and> fst (can_use_plan ''a@b.c'' ''expert'' us1) = Inr False"
proof -
  let ?ud = "(registered None)\<lparr>plan := Some ''twenty''\<rparr>"
  let ?us = "[''a@b.c'' \<mapsto> ?ud]"
  have h1: "?us ''a@b.c'' = Some ?ud"
    by simp
  have h2: "plan ?ud = Some ''twenty''"
    by simp
  have h3: "usage_ok ?ud"
    by (simp add: usage_ok_def registered_def)
  have h4: "set (concat (replicate 4 levels)) \<subseteq> set levels \<and> length (concat (replicate 4 levels)) = 20"
    by (simp add: levels_def numeral_eq_Suc)
  have h5: "''easy'' \<in> set levels" "''expert'' \<in> set levels"
    by (simp_all add: levels_def)
  have cu: "usage_get (current_usage ?ud) ''total'' = 0"
    by (simp add: usage_get_def current_usage_def setdefault_usage_count_def registered_def
        default_usage_def)
  note lim = twenty_plan_limit [of ?us "''a@b.c''" ?ud, OF h1 h2 h3]
  from lim cu have a: "fst (can_use_plan ''a@b.c'' ''easy'' ?us) = Inr True"
    by simp
  from lim have "set (concat (replicate 4 levels)) \<subseteq> set levels
        \<and> length (concat (replicate 4 levels)) = 20 \<longrightarrow>
      (\<exists>us1. track_usage_all ''a@b.c'' (concat (replicate 4 levels)) ?us = (Inr (), us1)
         \<and> (\<forall>level \<in> set levels. fst (can_use_plan ''a@b.c'' level us1) = Inr False))"
    by blast
  with h4 obtain us1 where
    b: "track_usage_all ''a@b.c'' (concat (replicate 4 levels)) ?us = (Inr (), us1)"
      "\<forall>level \<in> set levels. fst (can_use_plan ''a@b.c'' level us1) = Inr False"
    by blast
  from a b h5 show ?thesis
    by blast
qed

text \<open>
  C8. For an account on the monthly plan \<^verbatim>\<open>can_use_plan\<close> returns true, whatever the
  counters. \<^verbatim>\<open>index_get\<close> ends the plan exactly when the present time lies beyond the
  start plus thirty days: then it removes the keys \<^verbatim>\<open>plan\<close> and \<^verbatim>\<open>plan_start\<close> and
  redirects to the plan selection; up to and including thirty days after the start it
  shows the selection page and the account keeps its plan and its start.
\<close>

theorem monthly_plan_expiry:
  assumes "us email = Some ud" and "plan ud = Some ''monthly''"
  shows "fst (can_use_plan email level us) = Inr True
     \<and> (\<forall>start. plan_start ud = Some start \<longrightarrow>
          (start + timedelta_days 30 < now \<longrightarrow>
             index_get (Some email) now us
               = (Inr (Redirect ''/choose_plan'',
                       [(''Your monthly subscription has expired. Please choose a new plan.'',
                         ''warning'')]),
                  us(email \<mapsto> ud\<lparr>plan := None, plan_start := None\<rparr>)))
        \<and> (now \<le> start + timedelta_days 30 \<longrightarrow>
             (\<exists>us1 ud1. index_get (Some email) now us
                  = (Inr (Selection ''monthly'' (current_usage ud) (map (\<lambda>l. (l, True)) levels), []),
                     us1)
                \<and> us1 email = Some ud1 \<and> plan ud1 = Some ''monthly''
                \<and> plan_start ud1 = Some start)))"
proof (intro conjI allI impI)
  show "fst (can_use_plan email level us) = Inr True"
    by (simp add: can_use_plan_monthly [of us email ud, OF assms])
next
  fix start
  assume "plan_start ud = Some start" and "start + timedelta_days 30 < now"
  then show "index_get (Some email) now us
               = (Inr (Redirect ''/choose_plan'',
                       [(''Your monthly subscription has expired. Please choose a new plan.'',
                         ''warning'')]),
                  us(email \<mapsto> ud\<lparr>plan := None, plan_start := None\<rparr>))"
    using assms by (simp add: index_get_def)
next
  fix start
  assume st: "plan_start ud = Some start" and le: "now \<le> start + timedelta_days 30"
  have "index_get (Some email) now us = index_get_selection email ud ''monthly'' us"
    using assms st le by (simp add: index_get_def)
  also have "\<dots> = (Inr (Selection ''monthly'' (current_usage ud) (map (\<lambda>l. (l, True)) levels), []),
           us(email \<mapsto> snd (setdefault_usage_count ud)))"
    using assms(2) by (subst index_get_selection_monthly) simp
  finally show "\<exists>us1 ud1. index_get (Some email) now us
                  = (Inr (Selection ''monthly'' (current_usage ud) (map (\<lambda>l. (l, True)) levels), []),
                     us1)
                \<and> us1 email = Some ud1 \<and> plan ud1 = Some ''monthly''
                \<and> plan_start ud1 = Some start"
    using assms(2) st by simp
qed

theorem monthly_plan_expiry_witness:
  "fst (can_use_plan ''a@b.c'' ''expert''
          [''a@b.c'' \<mapsto> (registered None)\<lparr>plan := Some ''monthly'', plan_start := Some 1000\<rparr>])
     = Inr True
   \<and> fst (index_get (Some ''a@b.c'') (1000 + timedelta_days 30 + 1)
          [''a@b.c'' \<mapsto> (registered None)\<lparr>plan := Some ''monthly'', plan_start := Some 1000\<rparr>])
     = Inr (Redirect ''/choose_plan'',
            [(''Your monthly subscription has expired. Please choose a new plan.'', ''warning'')])
   \<and> snd (index_get (Some ''a@b.c'') (1000 + timedelta_days 30 + 1)
          [''a@b.c'' \<mapsto> (registered None)\<lparr>plan := Some ''monthly'', plan_start := Some 1000\<rparr>])
     = [''a@b.c'' \<mapsto> (registered None)\<lparr>plan := None, plan_start := None\<rparr>]
   \<and> (\<exists>us1 ud1. snd (index_get (Some ''a@b.c'') (1000 + timedelta_days 30)
          [''a@b.c'' \<mapsto> (registered None)\<lparr>plan := Some ''monthly'', plan_start := Some 1000\<rparr>])
         = us1 \<and> us1 ''a@b.c'' = Some ud1 \<and> plan ud1 = Some ''monthly''
         \<and> plan_start ud1 = Some 1000)"
proof -
  let ?ud = "(registered None)\<lparr>plan := Some ''monthly'', plan_start := Some 1000\<rparr>"
  let ?us = "[''a@b.c'' \<mapsto> ?ud]"
  have h1: "?us ''a@b.c'' = Some ?ud"
    by simp
  have h2: "plan ?ud = Some ''monthly''"
    by simp
  have h3: "plan_start ?ud = Some 1000"
    by simp
  have late: "1000 + timedelta_days 30 < 1000 + timedelta_days 30 + 1"
    by simp
  have edge: "1000 + timedelta_days 30 \<le> 1000 + timedelta_days 30"
    by simp
  from monthly_plan_expiry [of ?us "''a@b.c''" ?ud "''expert''" "1000 + timedelta_days 30 + 1", OF h1 h2]
    h3 late
  have a: "fst (can_use_plan ''a@b.c'' ''expert'' ?us) = Inr True"
    and b: "index_get (Some ''a@b.c'') (1000 + timedelta_days 30 + 1) ?us
      = (Inr (Redirect ''/choose_plan'',
            [(''Your monthly subscription has expired. Please choose a new plan.'', ''warning'')]),
         ?us(''a@b.c'' \<mapsto> ?ud\<lparr>plan := None, plan_start := None\<rparr>))"
    by blast+
  from monthly_plan_expiry [of ?us "''a@b.c''" ?ud "''expert''" "1000 + timedelta_days 30", OF h1 h2]
    h3 edge
  have c: "\<exists>us1 ud1. index_get (Some ''a@b.c'') (1000 + timedelta_days 30) ?us
                  = (Inr (Selection ''monthly'' (current_usage ?ud) (map (\<lambda>l. (l, True)) levels), []),
                     us1)
                \<and> us1 ''a@b.c'' = Some ud1 \<and> plan ud1 = Some ''monthly''
                \<and> plan_start ud1 = Some 1000"
    by blast
  from a b c show ?thesis
    by (auto simp: registered_def)
qed

text \<open>
  C9. Neither \<^verbatim>\<open>choose_plan\<close> nor \<^verbatim>\<open>update_activation_after_payment\<close> changes the counters
  that an account has: whatever the request, the session and the plan, every account keeps
  the \<^verbatim>\<open>usage_count\<close> dictionary it had.
\<close>

theorem plan_change_keeps_usage:
  assumes "us email = Some ud" and "usage_count ud = Some uc"
  shows "(\<exists>ud1. snd (choose_plan session_user meth form_plan us) email = Some ud1
            \<and> usage_count ud1 = Some uc)
     \<and> (\<exists>ud1. snd (update_activation_after_payment p session_user now now_str us) email = Some ud1
            \<and> usage_count ud1 = Some uc)"
proof
  show "\<exists>ud1. snd (choose_plan session_user meth form_plan us) email = Some ud1
            \<and> usage_count ud1 = Some uc"
    using assms
    by (auto simp: choose_plan_def Let_def setdefault_usage_count_def split: option.splits)
next
  show "\<exists>ud1. snd (update_activation_after_payment p session_user now now_str us) email = Some ud1
            \<and> usage_count ud1 = Some uc"
    using assms
    by (auto simp: update_activation_after_payment_def Let_def split: option.splits)
qed

theorem plan_change_keeps_usage_witness:
  "(\<exists>ud1. snd (choose_plan (Some ''a@b.c'') POST (Some ''free'')
               [''a@b.c'' \<mapsto> (registered None)\<lparr>usage_count := Some (default_usage(''easy'' \<mapsto> 1))\<rparr>])
             ''a@b.c'' = Some ud1
        \<and> plan ud1 = Some ''free''
        \<and> usage_count ud1 = Some (default_usage(''easy'' \<mapsto> 1)))
   \<and> (\<exists>ud1. snd (update_activation_after_payment ''monthly'' (Some ''a@b.c'') 1000 ''20250101000000''
               [''a@b.c'' \<mapsto> (registered None)\<lparr>usage_count := Some (default_usage(''easy'' \<mapsto> 1))\<rparr>])
             ''a@b.c'' = Some ud1
        \<and> plan ud1 = Some ''monthly''
        \<and> usage_count ud1 = Some (default_usage(''easy'' \<mapsto> 1)))"
proof -
  let ?ud = "(registered None)\<lparr>usage_count := Some (default_usage(''easy'' \<mapsto> 1))\<rparr>"
  let ?us = "[''a@b.c'' \<mapsto> ?ud]"
  have h1: "?us ''a@b.c'' = Some ?ud"
    by simp
  have h2: "usage_count ?ud = Some (default_usage(''easy'' \<mapsto> 1))"
    by simp
  have fd: "\<not> all_exhausted (default_usage(''easy'' \<mapsto> 1))"
    by (simp add: all_exhausted_def levels_def usage_get_def default_usage_def)
  have p1: "plan (the (snd (choose_plan (Some ''a@b.c'') POST (Some ''free'') ?us) ''a@b.c'')) = Some ''free''"
    using fd by (simp add: choose_plan_def setdefault_usage_count_def)
  have p2: "plan (the (snd (update_activation_after_payment ''monthly'' (Some ''a@b.c'') 1000
                ''20250101000000'' ?us) ''a@b.c'')) = Some ''monthly''"
    by (simp add: update_activation_after_payment_def)
  from plan_change_keeps_usage [of ?us "''a@b.c''" ?ud "default_usage(''easy'' \<mapsto> 1)"
      "Some ''a@b.c''" POST "Some ''free''" "''monthly''" 1000 "''20250101000000''", OF h1 h2] p1 p2
  show ?thesis
    by auto
qed

subsection \<open>Properties of the grader\<close>

lemma read_answer_not_answered:
  "read_answer v = Not_answered
     \<longleftrightarrow> (v = None \<or> (\<exists>s. v = Some s \<and> (strip s = [] \<or> (\<exists>e. py_int s = Inl e))))"
  by (auto simp: read_answer_def split: option.splits sum.splits)

lemma grade_one_counts:
  assumes "grade_one f op i g = Inr g1"
  shows "\<exists>item. items g1 = items g @ [item]
           \<and> total_questions g1 = total_questions g + 1
           \<and> total_correct g1 = total_correct g + (if fb_correct item then 1 else 0)"
  using assms
  by (auto simp: grade_one_def Let_def split: sum.splits answer.splits if_splits)

lemma grade_range_counts:
  assumes "grade_range f op is g = Inr g1"
  shows "\<exists>new. items g1 = items g @ new
           \<and> total_questions g1 = total_questions g + int (length new)
           \<and> total_correct g1 = total_correct g + int (length (filter fb_correct new))"
  using assms
proof (induction "is" arbitrary: g)
  case Nil
  then show ?case by simp
next
  case (Cons i "is")
  from Cons.prems obtain g0 where
    one: "grade_one f op i g = Inr g0" and rest: "grade_range f op is g0 = Inr g1"
    by (auto split: sum.splits)
  from grade_one_counts [OF one] obtain item where
    a: "items g0 = items g @ [item]" "total_questions g0 = total_questions g + 1"
      "total_correct g0 = total_correct g + (if fb_correct item then 1 else 0)"
    by blast
  from Cons.IH [OF rest] obtain new where
    b: "items g1 = items g0 @ new" "total_questions g1 = total_questions g0 + int (length new)"
      "total_correct g1 = total_correct g0 + int (length (filter fb_correct new))"
    by blast
  have "items g1 = items g @ (item # new)"
    using a(1) b(1) by simp
  moreover have "total_questions g1 = total_questions g + int (length (item # new))"
    using a(2) b(2) by simp
  moreover have "total_correct g1 = total_correct g + int (length (filter fb_correct (item # new)))"
    using a(3) b(3) by simp
  ultimately show ?case by blast
qed

lemma grade_categories_counts:
  assumes "grade_categories f ops fb tc tq = Inr (fb1, tc1, tq1)"
  shows "tq1 - tq = total_count fb1 - total_count fb
       \<and> tc1 - tc = correct_count fb1 - correct_count fb"
  using assms
proof (induction ops arbitrary: fb tc tq)
  case Nil
  then show ?case by simp
next
  case (Cons op ops)
  let ?g = "\<lparr>items = [], total_correct = tc, total_questions = tq\<rparr>"
  from Cons.prems obtain g1 where
    rng: "grade_range f op [0 ..< nb_ops f op] ?g = Inr g1"
    and rest: "grade_categories f ops (fb @ [(op, items g1)]) (total_correct g1) (total_questions g1)
                 = Inr (fb1, tc1, tq1)"
    by (auto split: sum.splits)
  from grade_range_counts [OF rng] have
    a: "total_questions g1 = tq + int (length (items g1))"
       "total_correct g1 = tc + int (length (filter fb_correct (items g1)))"
    by auto
  from Cons.IH [OF rest] have
    b: "tq1 - total_questions g1 = total_count fb1 - total_count (fb @ [(op, items g1)])"
       "tc1 - total_correct g1 = correct_count fb1 - correct_count (fb @ [(op, items g1)])"
    by simp_all
  show ?case
    using a b by (simp add: total_count_def correct_count_def)
qed

lemma answers_route_score:
  assumes "answers_route True True f = Inr (Answers_result fb sc)"
  shows "score (correct_count fb) (total_count fb) = Inr sc"
proof -
  define ops where "ops =
    (if form_get f ''selected_category'' = Some ''all''
     then [''addition'', ''subtraction'', ''multiplication'', ''division'']
     else [str_of_option (form_get f ''selected_category'')])"
  have ar: "answers_route True True f =
      (case grade_categories f ops [] 0 0 of
         Inl e \<Rightarrow> Inl e
       | Inr (fb, tc, tq) \<Rightarrow>
           (case score tc tq of Inl e \<Rightarrow> Inl e | Inr sc \<Rightarrow> Inr (Answers_result fb sc)))"
    unfolding answers_route_def ops_def Let_def by simp
  show ?thesis
  proof (cases "grade_categories f ops [] 0 0")
    case (Inl e)
    with assms ar show ?thesis by simp
  next
    case (Inr r)
    obtain fb1 tc tq where r: "r = (fb1, tc, tq)"
      by (cases r)
    from assms ar Inr r have fb: "fb1 = fb" and s: "score tc tq = Inr sc"
      by (auto split: sum.splits)
    from grade_categories_counts [of f ops "[]" 0 0 fb1 tc tq] Inr r
    have "tq = total_count fb1" "tc = correct_count fb1"
      by (simp_all add: total_count_def correct_count_def)
    with s fb show ?thesis by simp
  qed
qed

lemma counts_ordered: "0 \<le> correct_count fb \<and> correct_count fb \<le> total_count fb"
  by (simp add: correct_count_def total_count_def)

text \<open>
  C6, as stated, fails for a submission whose answer is missing while an echoed operand
  field does not parse: the answer is normalised to \<^verbatim>\<open>Not answered\<close>, but
  \<^verbatim>\<open>int(request.form.get(...))\<close> on the operand raises \<^verbatim>\<open>ValueError\<close> outside any
  \<^verbatim>\<open>try\<close>, so the request ends in a parsing error and nothing is graded or counted.
\<close>

theorem unanswered_operand_counterexample:
  "read_answer (form_get [(''selected_category'', ''division''), (''division_0_a'', ''abc''),
                          (''division_0_b'', ''4''), (''division_0_op'', [CHR 0xF7])]
                  ''division_0'') = Not_answered
     \<and> answers_route True True
           [(''selected_category'', ''division''), (''division_0_a'', ''abc''),
            (''division_0_b'', ''4''), (''division_0_op'', [CHR 0xF7])]
         = Inl ValueError"
  by code_simp

text \<open>
  C6, amended. A submitted answer that is missing, blank or rejected by \<^verbatim>\<open>int\<close> is
  normalised to the marker \<^verbatim>\<open>Not answered\<close>, and normalising it raises nothing. The turn
  of the loop for such an answer then depends on the echoed fields of the exercise alone:
  if an operand field is missing or does not parse, or the divisor of a division is zero,
  the turn raises that exception (\<^verbatim>\<open>TypeError\<close>, \<^verbatim>\<open>ValueError\<close>, \<^verbatim>\<open>ZeroDivisionError\<close>);
  otherwise it appends a feedback line that ends in \<^verbatim>\<open>Not answered\<close> and is marked
  incorrect, adds one to \<^verbatim>\<open>total_questions\<close> and leaves \<^verbatim>\<open>total_correct\<close> as it was.
\<close>

theorem unanswered_graded_incorrect:
  assumes "key = op @ ''_'' @ str_nat i"
    and "form_get f key = None
           \<or> (\<exists>s. form_get f key = Some s \<and> (strip s = [] \<or> (\<exists>e. py_int s = Inl e)))"
  shows "read_answer (form_get f key) = Not_answered
     \<and> grade_one f op i g =
         (case py_int_opt (form_get f (key @ ''_a'')) of
            Inl e \<Rightarrow> Inl e
          | Inr x \<Rightarrow>
              (case py_int_opt (form_get f (key @ ''_b'')) of
                 Inl e \<Rightarrow> Inl e
               | Inr y \<Rightarrow>
                   (case recompute x y (form_get f (key @ ''_op'')) of
                      Inl e \<Rightarrow> Inl e
                    | Inr c \<Rightarrow>
                        Inr (g\<lparr>items := items g @
                                 [\<lparr>fb_text = fmt_3d (int i + 1) @ ''. '' @ fmt_3d x @ '' ''
                                      @ str_of_option (form_get f (key @ ''_op'')) @ '' ''
                                      @ fmt_3d y @ '' = Not answered'',
                                    fb_correct = False\<rparr>],
                               total_questions := total_questions g + 1\<rparr>))))"
proof -
  have ra: "read_answer (form_get f key) = Not_answered"
    using assms(2) by (simp add: read_answer_not_answered)
  then have "read_answer (form_get f (op @ ''_'' @ str_nat i)) = Not_answered"
    using assms(1) by simp
  then have "grade_one f op i g =
         (case py_int_opt (form_get f ((op @ ''_'' @ str_nat i) @ ''_a'')) of
            Inl e \<Rightarrow> Inl e
          | Inr x \<Rightarrow>
              (case py_int_opt (form_get f ((op @ ''_'' @ str_nat i) @ ''_b'')) of
                 Inl e \<Rightarrow> Inl e
               | Inr y \<Rightarrow>
                   (case recompute x y (form_get f ((op @ ''_'' @ str_nat i) @ ''_op'')) of
                      Inl e \<Rightarrow> Inl e
                    | Inr c \<Rightarrow>
                        Inr (g\<lparr>items := items g @
                                 [\<lparr>fb_text = fmt_3d (int i + 1) @ ''. '' @ fmt_3d x @ '' ''
                                      @ str_of_option (form_get f ((op @ ''_'' @ str_nat i) @ ''_op''))
                                      @ '' '' @ fmt_3d y @ '' = Not answered'',
                                    fb_correct = False\<rparr>],
                               total_questions := total_questions g + 1\<rparr>))))"
    by (simp add: grade_one_def Let_def str_answer_def split: sum.splits)
  with ra show ?thesis
    unfolding assms(1) by simp
qed

theorem unanswered_graded_incorrect_witness:
  "grade_one [(''selected_category'', ''division''), (''division_0_a'', ''12''),
              (''division_0_b'', ''4''), (''division_0_op'', [CHR 0xF7])]
     ''division'' 0 \<lparr>items = [], total_correct = 0, total_questions = 0\<rparr>
     = Inr \<lparr>items = [\<lparr>fb_text = ''  1.  12 '' @ [CHR 0xF7] @ ''   4 = Not answered'',
                         fb_correct = False\<rparr>],
            total_correct = 0, total_questions = 1\<rparr>
   \<and> grade_one [(''selected_category'', ''addition''), (''addition_0'', [CHR 0x1C, CHR ''7'']),
                (''addition_0_a'', ''3''), (''addition_0_b'', ''4''), (''addition_0_op'', ''+'')]
     ''addition'' 0 \<lparr>items = [], total_correct = 0, total_questions = 0\<rparr>
     = Inr \<lparr>items = [\<lparr>fb_text = ''  1.   3 +   4 = Not answered'', fb_correct = False\<rparr>],
            total_correct = 0, total_questions = 1\<rparr>"
proof -
  let ?f = "[(''selected_category'', ''division''), (''division_0_a'', ''12''),
             (''division_0_b'', ''4''), (''division_0_op'', [CHR 0xF7])]"
  let ?h = "[(''selected_category'', ''addition''), (''addition_0'', [CHR 0x1C, CHR ''7'']),
             (''addition_0_a'', ''3''), (''addition_0_b'', ''4''), (''addition_0_op'', ''+'')]"
  let ?g = "\<lparr>items = [], total_correct = 0, total_questions = 0\<rparr>"
  have k1: "''division_0'' = ''division'' @ ''_'' @ str_nat 0"
    and k2: "''addition_0'' = ''addition'' @ ''_'' @ str_nat 0"
    by code_simp+
  have h1: "form_get ?f ''division_0'' = None
      \<or> (\<exists>s. form_get ?f ''division_0'' = Some s \<and> (strip s = [] \<or> (\<exists>e. py_int s = Inl e)))"
    by (simp add: form_get_def)
  have p: "py_int [CHR 0x1C, CHR ''7''] = Inl ValueError"
    by code_simp
  have h2: "form_get ?h ''addition_0'' = None
      \<or> (\<exists>s. form_get ?h ''addition_0'' = Some s \<and> (strip s = [] \<or> (\<exists>e. py_int s = Inl e)))"
    using p by (simp add: form_get_def)
  have v1: "py_int_opt (form_get ?f ''division_0_a'') = Inr 12"
    "py_int_opt (form_get ?f ''division_0_b'') = Inr 4"
    "recompute 12 4 (form_get ?f ''division_0_op'') = Inr (Some 3)"
    "str_of_option (form_get ?f ''division_0_op'') = [CHR 0xF7]"
    by code_simp+
  have v2: "py_int_opt (form_get ?h ''addition_0_a'') = Inr 3"
    "py_int_opt (form_get ?h ''addition_0_b'') = Inr 4"
    "recompute 3 4 (form_get ?h ''addition_0_op'') = Inr (Some 7)"
    "str_of_option (form_get ?h ''addition_0_op'') = ''+''"
    by code_simp+
  have t: "fmt_3d 1 = ''  1''" "fmt_3d 12 = '' 12''" "fmt_3d 4 = ''  4''" "fmt_3d 3 = ''  3''"
    by code_simp+
  from unanswered_graded_incorrect [OF k1 h1, of ?g]
  have a: "grade_one ?f ''division'' 0 ?g
     = Inr \<lparr>items = [\<lparr>fb_text = ''  1.  12 '' @ [CHR 0xF7] @ ''   4 = Not answered'',
                         fb_correct = False\<rparr>],
            total_correct = 0, total_questions = 1\<rparr>"
    by (simp add: v1 t)
  from unanswered_graded_incorrect [OF k2 h2, of ?g]
  have b: "grade_one ?h ''addition'' 0 ?g
     = Inr \<lparr>items = [\<lparr>fb_text = ''  1.   3 +   4 = Not answered'', fb_correct = False\<rparr>],
            total_correct = 0, total_questions = 1\<rparr>"
    by (simp add: v2 t)
  from a b show ?thesis by simp
qed

subsection \<open>Properties of the score\<close>

lemma rhe_div_le:
  assumes "0 < d" and "n \<le> B * d"
  shows "rhe_div n d \<le> B"
proof -
  have q: "n div d \<le> B"
    using assms by (metis div_mult_self_is_m zdiv_mono1 nonzero_mult_div_cancel_right less_irrefl)
  show ?thesis
  proof (cases "n div d = B")
    case True
    have "n = d * (n div d) + n mod d" by simp
    with True assms(2) have "n mod d \<le> 0"
      by (metis add_le_same_cancel1 mult.commute)
    moreover have "0 \<le> n mod d" using assms(1) by simp
    ultimately have "n mod d = 0" by simp
    then show ?thesis
      using True assms(1) by (simp add: rhe_div_def)
  next
    case False
    with q have "n div d + 1 \<le> B" by simp
    then show ?thesis
      by (simp add: rhe_div_def Let_def)
  qed
qed

lemma rhe_div_ge:
  assumes "0 < d" and "B * d \<le> n"
  shows "B \<le> rhe_div n d"
proof -
  have "B \<le> n div d"
    using assms by (metis nonzero_mult_div_cancel_right less_irrefl zdiv_mono1)
  then show ?thesis
    by (simp add: rhe_div_def Let_def)
qed

lemma rhe_div_exact:
  assumes "0 < d"
  shows "rhe_div (k * d) d = k"
  using assms by (simp add: rhe_div_def)

lemma ilog2_lower:
  assumes "0 < n" and "0 < d"
  shows "(0 \<le> ilog2 n d \<longrightarrow> d * 2 ^ nat (ilog2 n d) \<le> n)
       \<and> (ilog2 n d < 0 \<longrightarrow> d \<le> n * 2 ^ nat (- ilog2 n d))"
proof -
  define k where "k = bitlen n - bitlen d"
  let ?test = "if 0 \<le> k then d * 2 ^ nat k \<le> n else d \<le> n * 2 ^ nat (- k)"
  show ?thesis
  proof (cases ?test)
    case True
    then have il: "ilog2 n d = k"
      unfolding ilog2_def Let_def k_def by simp
    show ?thesis
    proof (cases "0 \<le> k")
      case True
      with \<open>?test\<close> have "d * 2 ^ nat k \<le> n" by simp
      with True show ?thesis unfolding il by simp
    next
      case False
      with \<open>?test\<close> have "d \<le> n * 2 ^ nat (- k)" by simp
      with False show ?thesis unfolding il by simp
    qed
  next
    case False
    then have il: "ilog2 n d = k - 1"
      unfolding ilog2_def Let_def k_def by simp
    from bitlen_bounds [OF assms(1)] have n1: "2 ^ nat (bitlen n - 1) \<le> n"
      by simp
    from bitlen_bounds [OF assms(2)] have d1: "d < 2 ^ nat (bitlen d)"
      by simp
    have bn: "1 \<le> bitlen n" and bd: "1 \<le> bitlen d"
      using assms bitlen_eq_zero_iff [of n] bitlen_eq_zero_iff [of d] bitlen_nonneg [of n]
        bitlen_nonneg [of d] by linarith+
    show ?thesis
    proof (cases "1 \<le> k")
      case True
      have "nat (bitlen n - 1) = nat (bitlen d) + nat (k - 1)"
        using True bd by (simp add: k_def nat_add_distrib [symmetric])
      then have "(2::int) ^ nat (bitlen n - 1) = 2 ^ nat (bitlen d) * 2 ^ nat (k - 1)"
        by (simp add: power_add)
      moreover have "d * 2 ^ nat (k - 1) \<le> 2 ^ nat (bitlen d) * 2 ^ nat (k - 1)"
        using d1 by (simp add: mult_right_mono)
      ultimately have "d * 2 ^ nat (k - 1) \<le> n"
        using n1 by linarith
      with True il show ?thesis by simp
    next
      case False
      have "nat (bitlen d) = nat (bitlen n - 1) + nat (1 - k)"
        using False bn by (simp add: k_def nat_add_distrib [symmetric])
      then have "(2::int) ^ nat (bitlen d) = 2 ^ nat (bitlen n - 1) * 2 ^ nat (1 - k)"
        by (simp add: power_add)
      moreover have "2 ^ nat (bitlen n - 1) * 2 ^ nat (1 - k) \<le> n * 2 ^ nat (1 - k)"
        using n1 by (simp add: mult_right_mono)
      ultimately have "d \<le> n * 2 ^ nat (1 - k)"
        using d1 by linarith
      with False il show ?thesis by simp
    qed
  qed
qed

lemma ilog2_less:
  assumes "0 < n" and "0 < d" and "n < d * 2 ^ j"
  shows "ilog2 n d < int j"
proof (rule ccontr)
  assume "\<not> ilog2 n d < int j"
  then have ge: "int j \<le> ilog2 n d" by simp
  then have "0 \<le> ilog2 n d" by simp
  with ilog2_lower [OF assms(1,2)] have "d * 2 ^ nat (ilog2 n d) \<le> n" by simp
  moreover have "(2::int) ^ j \<le> 2 ^ nat (ilog2 n d)"
    using ge by (intro power_increasing) simp_all
  then have "d * 2 ^ j \<le> d * 2 ^ nat (ilog2 n d)"
    using assms(2) by (simp add: mult_left_mono)
  ultimately show False
    using assms(3) by linarith
qed

lemma round_binary64_le:
  assumes "0 < n" and "0 < d" and "n \<le> B * d" and "B < 2 ^ 53"
    and "round_binary64 n d = (m, e)"
  shows "e \<le> 0 \<and> 0 \<le> m \<and> m \<le> B * 2 ^ nat (- e)"
proof -
  have "B * d < 2 ^ 53 * d"
    using assms(2,4) by simp
  with assms(3) have "n < d * 2 ^ 53"
    by (simp add: mult.commute)
  from ilog2_less [OF assms(1,2) this] have k: "ilog2 n d < 53"
    by simp
  define e' where "e' = max (ilog2 n d - 52) (- 1074)"
  have e'le: "e' \<le> 0"
    using k by (simp add: e'_def)
  have rb: "round_binary64 n d
      = (if 0 \<le> e' then rhe_div n (d * 2 ^ nat e') else rhe_div (n * 2 ^ nat (- e')) d, e')"
    using assms(1) by (simp add: round_binary64_def e'_def Let_def)
  from assms(5) [unfolded rb] have e: "e = e'"
    and m: "m = (if 0 \<le> e' then rhe_div n (d * 2 ^ nat e') else rhe_div (n * 2 ^ nat (- e')) d)"
    by auto
  show ?thesis
  proof (cases "0 \<le> e'")
    case True
    with e'le have z: "e' = 0" by simp
    have "rhe_div n d \<le> B"
      using assms(2,3) by (rule rhe_div_le)
    moreover have "0 \<le> rhe_div n d"
      using assms(1,2) by (intro rhe_div_ge) simp_all
    ultimately show ?thesis
      using z e m by simp
  next
    case False
    have "n * 2 ^ nat (- e') \<le> (B * 2 ^ nat (- e')) * d"
      using assms(3) by (simp add: mult.assoc mult.left_commute mult_right_mono
          mult.commute [of d])
    with assms(2) have "rhe_div (n * 2 ^ nat (- e')) d \<le> B * 2 ^ nat (- e')"
      by (rule rhe_div_le)
    moreover have "0 \<le> rhe_div (n * 2 ^ nat (- e')) d"
      using assms(1,2) by (intro rhe_div_ge) simp_all
    ultimately show ?thesis
      using False e m e'le by simp
  qed
qed

lemma round_binary64_zero: "round_binary64 0 d = (0, 0)"
  by (simp add: round_binary64_def)

lemma small_float_no_overflow:
  assumes "e \<le> 0" and "0 \<le> m" and "m \<le> B * 2 ^ nat (- e)" and "B < 2 ^ 1024"
  shows "\<not> float_overflow (m, e)"
proof (cases "e = 0")
  case True
  with assms show ?thesis
    by (simp add: float_overflow_def)
next
  case False
  have "B * 2 ^ nat (- e) < 2 ^ 1024 * 2 ^ nat (- e)"
    using assms(4) by simp
  with assms(3) have "m < 2 ^ 1024 * 2 ^ nat (- e)"
    by linarith
  with False assms(1,2) show ?thesis
    by (simp add: float_overflow_def)
qed

lemma round_binary64_nonneg_le:
  assumes "0 \<le> n" and "0 < d" and "n \<le> B * d" and "B < 2 ^ 53"
    and "round_binary64 n d = (m, e)"
  shows "e \<le> 0 \<and> 0 \<le> m \<and> m \<le> B * 2 ^ nat (- e)"
proof (cases "n = 0")
  case True
  with assms(5) have "m = 0" "e = 0"
    by (simp_all add: round_binary64_zero)
  moreover have "0 \<le> B"
  proof -
    have "0 \<le> B * d" using assms(1,3) by simp
    with assms(2) show ?thesis by (simp add: zero_le_mult_iff)
  qed
  ultimately show ?thesis by simp
next
  case False
  with assms(1) have "0 < n" by simp
  then show ?thesis
    using assms(2-5) by (rule round_binary64_le)
qed

lemma float_mul_100_le:
  assumes "e1 \<le> 0" and "0 \<le> m1" and "m1 \<le> 2 ^ nat (- e1)"
    and "float_mul (m1, e1) float_100 = (m2, e2)"
  shows "e2 \<le> 0 \<and> 0 \<le> m2 \<and> m2 \<le> 100 * 2 ^ nat (- e2)"
proof (cases "0 \<le> e1")
  case True
  with assms(1) have z: "e1 = 0" by simp
  with assms(4) have r: "round_binary64 (m1 * 100) 1 = (m2, e2)"
    by (simp add: float_mul_def float_100_def)
  have "m1 * 100 \<le> 100 * 1"
    using assms(3) z by simp
  with assms(2) show ?thesis
    using r by (intro round_binary64_nonneg_le [of "m1 * 100" 1 100]) simp_all
next
  case False
  with assms(4) have r: "round_binary64 (m1 * 100) (2 ^ nat (- e1)) = (m2, e2)"
    by (simp add: float_mul_def float_100_def)
  have "m1 * 100 \<le> 100 * 2 ^ nat (- e1)"
    using assms(3) by simp
  with assms(2) show ?thesis
    using r by (intro round_binary64_nonneg_le [of "m1 * 100" "2 ^ nat (- e1)" 100]) simp_all
qed

lemma py_round_le:
  assumes "e \<le> 0" and "0 \<le> m" and "m \<le> B * 2 ^ nat (- e)" and "B < 2 ^ 1024"
  shows "\<exists>s. py_round (m, e) = Inr s \<and> 0 \<le> s \<and> s \<le> B"
proof -
  have no: "\<not> float_overflow (m, e)"
    using assms by (rule small_float_no_overflow)
  show ?thesis
  proof (cases "0 \<le> e")
    case True
    with assms(1) have "e = 0" by simp
    with assms no show ?thesis
      by (simp add: py_round_def)
  next
    case False
    have "rhe_div m (2 ^ nat (- e)) \<le> B"
      using assms(3) by (intro rhe_div_le) simp_all
    moreover have "0 \<le> rhe_div m (2 ^ nat (- e))"
      using assms(2) by (intro rhe_div_ge) simp_all
    ultimately show ?thesis
      using False no by (simp add: py_round_def)
  qed
qed

lemma score_in_range:
  assumes "0 \<le> c" and "c \<le> t"
  shows "\<exists>s. score c t = Inr s \<and> 0 \<le> s \<and> s \<le> 100"
proof (cases "0 < t")
  case False
  then show ?thesis by (simp add: score_def)
next
  case True
  obtain m1 e1 where r1: "round_binary64 c t = (m1, e1)"
    by (cases "round_binary64 c t")
  from assms True have b1: "e1 \<le> 0 \<and> 0 \<le> m1 \<and> m1 \<le> 1 * 2 ^ nat (- e1)"
    using r1 by (intro round_binary64_nonneg_le [of c t 1]) simp_all
  then have no1: "\<not> float_overflow (m1, e1)"
    by (intro small_float_no_overflow [of e1 m1 1]) simp_all
  have td: "int_truediv c t = Inr (m1, e1)"
    using True r1 no1 by (simp add: int_truediv_def)
  obtain m2 e2 where r2: "float_mul (m1, e1) float_100 = (m2, e2)"
    by (cases "float_mul (m1, e1) float_100")
  from b1 have b2: "e2 \<le> 0 \<and> 0 \<le> m2 \<and> m2 \<le> 100 * 2 ^ nat (- e2)"
    using r2 by (intro float_mul_100_le [of e1 m1]) simp_all
  then have "\<exists>s. py_round (m2, e2) = Inr s \<and> 0 \<le> s \<and> s \<le> 100"
    by (intro py_round_le) simp_all
  then show ?thesis
    using True td r2 by (simp add: score_def)
qed

lemma score_all_correct:
  assumes "0 < t"
  shows "score t t = Inr 100"
proof -
  have k: "ilog2 t t = 0"
    by (simp add: ilog2_def)
  have "rhe_div (t * 2 ^ 52) t = 2 ^ 52"
    using rhe_div_exact [OF assms, of "2 ^ 52"] by (simp add: mult.commute)
  then have r1: "round_binary64 t t = (2 ^ 52, - 52)"
    using assms by (simp add: round_binary64_def k)
  have no: "\<not> float_overflow (2 ^ 52, - 52)"
    by (simp add: float_overflow_def)
  have td: "int_truediv t t = Inr (2 ^ 52, - 52)"
    using assms r1 no by (simp add: int_truediv_def)
  have "py_round (float_mul (2 ^ 52, - 52) float_100) = Inr 100"
    by code_simp
  then show ?thesis
    using assms td by (simp add: score_def)
qed

lemma rhe_div_half:
  assumes "0 < d"
  shows "\<bar>2 * (rhe_div n d * d - n)\<bar> \<le> d"
proof -
  define q where "q = n div d"
  define r where "r = n mod d"
  have n: "n = q * d + r"
    by (simp add: q_def r_def)
  have r: "0 \<le> r" "r < d"
    using assms by (simp_all add: r_def)
  have cases: "rhe_div n d = q \<and> 2 * r \<le> d \<or> rhe_div n d = q + 1 \<and> d \<le> 2 * r"
    unfolding rhe_div_def Let_def q_def [symmetric] r_def [symmetric] by auto
  then show ?thesis
  proof
    assume a: "rhe_div n d = q \<and> 2 * r \<le> d"
    then have "rhe_div n d * d - n = - r"
      using n by simp
    with a r show ?thesis by simp
  next
    assume a: "rhe_div n d = q + 1 \<and> d \<le> 2 * r"
    then have "rhe_div n d * d - n = d - r"
      using n by (simp add: algebra_simps)
    with a r show ?thesis by simp
  qed
qed

lemma round_binary64_form:
  assumes "0 < n" and "0 < d" and "n < d * 2 ^ j" and "j \<le> 52"
    and "round_binary64 n d = (m, e)"
  shows "e \<le> int j - 53 \<and> m = rhe_div (n * 2 ^ nat (- e)) d"
proof -
  from ilog2_less [OF assms(1,2,3)] have k: "ilog2 n d < int j" .
  define e' where "e' = max (ilog2 n d - 52) (- 1074)"
  have le: "e' \<le> int j - 53"
    using k by (simp add: e'_def)
  then have neg: "e' < 0"
    using assms(4) by simp
  have "round_binary64 n d = (rhe_div (n * 2 ^ nat (- e')) d, e')"
    using assms(1) neg by (simp add: round_binary64_def e'_def [symmetric] Let_def)
  with assms(5) le show ?thesis by auto
qed

lemma pow2_ge:
  assumes "e \<le> - int k"
  shows "(2::int) ^ k \<le> 2 ^ nat (- e)"
  using assms by (intro power_increasing) simp_all

lemma abs_half:
  fixes x y :: real
  assumes "\<bar>2 * x\<bar> \<le> y"
  shows "\<bar>x\<bar> \<le> y / 2"
  using assms by (simp add: abs_mult)

lemma abs_sum3:
  fixes a b c :: real
  shows "\<bar>a + b + 100 * c\<bar> \<le> \<bar>a\<bar> + \<bar>b\<bar> + 100 * \<bar>c\<bar>"
  by linarith

lemma score_nearest:
  assumes "0 \<le> c" and "c \<le> t" and "0 < t" and "score c t = Inr s"
  shows "2 * \<bar>s * t - 100 * c\<bar> \<le> t + t div 2 ^ 44"
proof (cases "c = 0")
  case True
  have "score 0 t = Inr 0"
    using assms(3) by (simp add: score_def int_truediv_def round_binary64_zero float_overflow_def
        float_mul_def float_100_def py_round_def)
  moreover have "0 \<le> t div 2 ^ 44"
    using assms(3) by (simp add: pos_imp_zdiv_nonneg_iff)
  ultimately show ?thesis
    using True assms by simp
next
  case False
  with assms(1) have cpos: "0 < c" by simp
  have dnn: "0 \<le> t div 2 ^ 44"
    using assms(3) by (simp add: pos_imp_zdiv_nonneg_iff)
  obtain m1 e1 where r1: "round_binary64 c t = (m1, e1)"
    by (cases "round_binary64 c t")
  have "c < t * 2 ^ 1"
    using assms(2,3) by simp
  from round_binary64_form [OF cpos assms(3) this _ r1]
  have e1: "e1 \<le> - 52" and m1: "m1 = rhe_div (c * 2 ^ nat (- e1)) t"
    by simp_all
  define D1 where "D1 = (2::int) ^ nat (- e1)"
  have D1: "2 ^ 52 \<le> D1"
    unfolding D1_def using e1 by (intro pow2_ge) simp
  have H1: "\<bar>2 * (m1 * t - c * D1)\<bar> \<le> t"
    unfolding m1 D1_def using assms(3) by (rule rhe_div_half)
  have b1: "e1 \<le> 0 \<and> 0 \<le> m1 \<and> m1 \<le> 1 * 2 ^ nat (- e1)"
    using assms cpos r1 by (intro round_binary64_nonneg_le [of c t 1]) simp_all
  then have no1: "\<not> float_overflow (m1, e1)"
    by (intro small_float_no_overflow [of e1 m1 1]) simp_all
  have td: "int_truediv c t = Inr (m1, e1)"
    using assms(3) r1 no1 by (simp add: int_truediv_def)
  obtain m2 e2 where r2: "float_mul (m1, e1) float_100 = (m2, e2)"
    by (cases "float_mul (m1, e1) float_100")
  have sc: "py_round (m2, e2) = Inr s"
    using assms(3,4) td r2 by (simp add: score_def)
  have fm: "round_binary64 (m1 * 100) D1 = (m2, e2)"
    using r2 e1 by (simp add: float_mul_def float_100_def D1_def)
  show ?thesis
  proof (cases "m1 = 0")
    case True
    with fm have "m2 = 0" "e2 = 0"
      by (simp_all add: round_binary64_zero)
    with sc have s0: "s = 0"
      by (simp add: py_round_def float_overflow_def)
    from H1 True have "2 * (c * D1) \<le> t"
      by simp
    moreover have "c * 2 ^ 52 \<le> c * D1"
      using D1 cpos by (intro mult_left_mono) simp_all
    ultimately have "2 * (c * 2 ^ 52) \<le> t"
      by linarith
    then have "200 * c \<le> t"
      using cpos by simp
    with s0 dnn show ?thesis
      using cpos by simp
  next
    case False
    with b1 have m1pos: "0 < m1" by simp
    have D1pos: "0 < D1"
      by (simp add: D1_def)
    have "m1 * 100 \<le> 100 * D1"
      using b1 by (simp add: D1_def)
    then have lt: "m1 * 100 < D1 * 2 ^ 7"
      using D1pos by simp
    have N: "0 < m1 * 100"
      using m1pos by simp
    from round_binary64_form [OF N D1pos lt _ fm]
    have e2: "e2 \<le> - 46" and m2: "m2 = rhe_div (m1 * 100 * 2 ^ nat (- e2)) D1"
      by simp_all
    define D2 where "D2 = (2::int) ^ nat (- e2)"
    have D2: "2 ^ 46 \<le> D2"
      unfolding D2_def using e2 by (intro pow2_ge) simp
    have D2pos: "0 < D2"
      by (simp add: D2_def)
    have H2: "\<bar>2 * (m2 * D1 - m1 * 100 * D2)\<bar> \<le> D1"
      unfolding m2 D2_def using D1pos by (rule rhe_div_half)
    have b2: "e2 \<le> 0 \<and> 0 \<le> m2 \<and> m2 \<le> 100 * 2 ^ nat (- e2)"
      using b1 r2 by (intro float_mul_100_le [of e1 m1]) simp_all
    then have no2: "\<not> float_overflow (m2, e2)"
      by (intro small_float_no_overflow [of e2 m2 100]) simp_all
    have s: "s = rhe_div m2 D2"
      using sc no2 e2 by (simp add: py_round_def D2_def)
    have H3: "\<bar>2 * (s * D2 - m2)\<bar> \<le> D2"
      unfolding s using D2pos by (rule rhe_div_half)
    define S M2 M1 d1 d2 C T where "S = real_of_int s" and "M2 = real_of_int m2"
      and "M1 = real_of_int m1" and "d1 = real_of_int D1" and "d2 = real_of_int D2"
      and "C = real_of_int c" and "T = real_of_int t"
    have pos: "0 < d1" "0 < d2" "0 < T"
      using D1pos D2pos assms(3) by (simp_all add: d1_def d2_def T_def)
    have "real_of_int (2 ^ 52) \<le> real_of_int D1" "real_of_int (2 ^ 46) \<le> real_of_int D2"
      using D1 D2 by (simp_all only: of_int_le_iff)
    then have big: "2 ^ 52 \<le> d1" "2 ^ 46 \<le> d2"
      unfolding d1_def d2_def by simp_all
    have "real_of_int \<bar>2 * (m1 * t - c * D1)\<bar> \<le> real_of_int t"
      using H1 by (simp only: of_int_le_iff)
    then have R1: "\<bar>2 * (M1 * T - C * d1)\<bar> \<le> T"
      unfolding M1_def T_def C_def d1_def by simp
    have "real_of_int \<bar>2 * (m2 * D1 - m1 * 100 * D2)\<bar> \<le> real_of_int D1"
      using H2 by (simp only: of_int_le_iff)
    then have R2: "\<bar>2 * (M2 * d1 - M1 * 100 * d2)\<bar> \<le> d1"
      unfolding M1_def M2_def d1_def d2_def by simp
    have "real_of_int \<bar>2 * (s * D2 - m2)\<bar> \<le> real_of_int D2"
      using H3 by (simp only: of_int_le_iff)
    then have R3: "\<bar>2 * (S * d2 - M2)\<bar> \<le> d2"
      unfolding S_def M2_def d2_def by simp
    have R1': "\<bar>M1 * T - C * d1\<bar> \<le> T / 2"
      using R1 by (rule abs_half)
    have R2': "\<bar>M2 * d1 - M1 * 100 * d2\<bar> \<le> d1 / 2"
      using R2 by (rule abs_half)
    have R3': "\<bar>S * d2 - M2\<bar> \<le> d2 / 2"
      using R3 by (rule abs_half)
    have A1: "\<bar>M1 / d1 - C / T\<bar> \<le> 1 / (2 * d1)"
    proof -
      have "M1 / d1 - C / T = (M1 * T - C * d1) / (d1 * T)"
        using pos by (simp add: field_simps)
      then have "\<bar>M1 / d1 - C / T\<bar> = \<bar>M1 * T - C * d1\<bar> / (d1 * T)"
        using pos by (simp add: abs_mult)
      also have "\<dots> \<le> (T / 2) / (d1 * T)"
        using R1' pos by (intro divide_right_mono) simp_all
      also have "\<dots> = 1 / (2 * d1)"
        using pos by simp
      finally show ?thesis .
    qed
    have A2: "\<bar>M2 / d2 - 100 * M1 / d1\<bar> \<le> 1 / (2 * d2)"
    proof -
      have "M2 / d2 - 100 * M1 / d1 = (M2 * d1 - M1 * 100 * d2) / (d2 * d1)"
        using pos by (simp add: field_simps)
      then have "\<bar>M2 / d2 - 100 * M1 / d1\<bar> = \<bar>M2 * d1 - M1 * 100 * d2\<bar> / (d2 * d1)"
        using pos by (simp add: abs_mult)
      also have "\<dots> \<le> (d1 / 2) / (d2 * d1)"
        using R2' pos by (intro divide_right_mono) simp_all
      also have "\<dots> = 1 / (2 * d2)"
        using pos by simp
      finally show ?thesis .
    qed
    have A3: "\<bar>S - M2 / d2\<bar> \<le> 1 / 2"
    proof -
      have "S - M2 / d2 = (S * d2 - M2) / d2"
        using pos by (simp add: field_simps)
      then have "\<bar>S - M2 / d2\<bar> = \<bar>S * d2 - M2\<bar> / d2"
        using pos by simp
      also have "\<dots> \<le> (d2 / 2) / d2"
        using R3' pos by (intro divide_right_mono) simp_all
      also have "\<dots> = 1 / 2"
        using pos by simp
      finally show ?thesis .
    qed
    have B1: "1 / (2 * d1) \<le> 1 / (2 * 2 ^ 52)"
      using big(1) by (intro divide_left_mono) simp_all
    have B2: "1 / (2 * d2) \<le> 1 / (2 * 2 ^ 46)"
      using big(2) by (intro divide_left_mono) simp_all
    have "S - 100 * C / T = (S - M2 / d2) + (M2 / d2 - 100 * M1 / d1) + 100 * (M1 / d1 - C / T)"
      by (simp add: algebra_simps)
    then have "\<bar>S - 100 * C / T\<bar> \<le> \<bar>S - M2 / d2\<bar> + \<bar>M2 / d2 - 100 * M1 / d1\<bar> + 100 * \<bar>M1 / d1 - C / T\<bar>"
      by (simp only: abs_sum3)
    also have "\<dots> \<le> 1 / 2 + 1 / (2 * 2 ^ 46) + 100 * (1 / (2 * 2 ^ 52))"
    proof (intro add_mono)
      show "\<bar>S - M2 / d2\<bar> \<le> 1 / 2"
        by (rule A3)
      show "\<bar>M2 / d2 - 100 * M1 / d1\<bar> \<le> 1 / (2 * 2 ^ 46)"
        by (rule order_trans [OF A2 B2])
      have "\<bar>M1 / d1 - C / T\<bar> \<le> 1 / (2 * 2 ^ 52)"
        by (rule order_trans [OF A1 B1])
      then show "100 * \<bar>M1 / d1 - C / T\<bar> \<le> 100 * (1 / (2 * 2 ^ 52))"
        by (intro mult_left_mono) simp_all
    qed
    also have "\<dots> \<le> 1 / 2 + 1 / 2 ^ 45"
      by simp
    finally have near: "\<bar>S - 100 * C / T\<bar> \<le> 1 / 2 + 1 / 2 ^ 45" .
    have "S - 100 * C / T = (S * T - 100 * C) / T"
      using pos by (simp add: field_simps)
    with near have "\<bar>S * T - 100 * C\<bar> / T \<le> 1 / 2 + 1 / 2 ^ 45"
      using pos by simp
    then have "\<bar>S * T - 100 * C\<bar> \<le> (1 / 2 + 1 / 2 ^ 45) * T"
      using pos by (simp add: pos_divide_le_eq)
    then have "2 * \<bar>S * T - 100 * C\<bar> - T \<le> T / 2 ^ 44"
      by (simp add: algebra_simps)
    then have "real_of_int (2 * \<bar>s * t - 100 * c\<bar> - t) \<le> real_of_int t / real_of_int (2 ^ 44)"
      unfolding S_def T_def C_def by simp
    then have "2 * \<bar>s * t - 100 * c\<bar> - t \<le> \<lfloor>real_of_int t / real_of_int (2 ^ 44)\<rfloor>"
      by (simp only: le_floor_iff)
    also have "\<dots> = t div 2 ^ 44"
      by (rule floor_divide_of_int_eq)
    finally show ?thesis
      by simp
  qed
qed

lemma rhe_div_unique:
  assumes "0 < d" and "2 * \<bar>s * d - n\<bar> \<le> d" and "2 * (n mod d) \<noteq> d"
  shows "s = rhe_div n d"
proof -
  define q where "q = n div d"
  define r where "r = n mod d"
  define j where "j = s - q"
  have n: "n = q * d + r"
    by (simp add: q_def r_def)
  have r: "0 \<le> r" "r < d"
    using assms(1) by (simp_all add: r_def)
  have sd: "s * d - n = j * d - r"
    by (simp add: j_def n algebra_simps)
  have j0: "0 \<le> j"
  proof (rule ccontr)
    assume "\<not> 0 \<le> j"
    then have "j \<le> - 1" by simp
    then have "j * d \<le> (- 1) * d"
      using assms(1) by (intro mult_right_mono) simp_all
    then have "j * d - r \<le> - d"
      using r by linarith
    with assms(1,2) sd show False by simp
  qed
  have j1: "j \<le> 1"
  proof (rule ccontr)
    assume "\<not> j \<le> 1"
    then have "2 \<le> j" by simp
    then have "2 * d \<le> j * d"
      using assms(1) by (intro mult_right_mono) simp_all
    then have "d < j * d - r"
      using r by linarith
    with assms(1,2) sd show False by simp
  qed
  from j0 j1 have "j = 0 \<or> j = 1" by auto
  then show ?thesis
  proof
    assume z: "j = 0"
    with assms(2) sd r have "2 * r \<le> d" by simp
    with assms(3) have "2 * r < d" by (simp add: r_def)
    then have "rhe_div n d = q"
      unfolding rhe_div_def Let_def q_def [symmetric] r_def [symmetric] by simp
    with z show ?thesis by (simp add: j_def)
  next
    assume o: "j = 1"
    with assms(2) sd r have "d \<le> 2 * r" by simp
    with assms(3) have "d < 2 * r" by (simp add: r_def)
    then have "rhe_div n d = q + 1"
      unfolding rhe_div_def Let_def q_def [symmetric] r_def [symmetric] by simp
    with o show ?thesis by (simp add: j_def)
  qed
qed

lemma score_exact_off_ties:
  assumes "0 \<le> c" and "c \<le> t" and "0 < t" and "t < 2 ^ 44" and "2 * ((100 * c) mod t) \<noteq> t"
    and "score c t = Inr s"
  shows "s = spec_score c t"
proof -
  have "t div 2 ^ 44 = 0"
    using assms(3,4) by (simp add: div_pos_pos_trivial)
  with score_nearest [OF assms(1,2,3,6)] have "2 * \<bar>s * t - 100 * c\<bar> \<le> t"
    by simp
  with assms(3) have "s = rhe_div (100 * c) t"
    using assms(5) by (rule rhe_div_unique)
  with assms(3) show ?thesis
    by (simp add: spec_score_def)
qed

lemma score_examples:
  "score 23 40 = Inr 57" "score 1 4 = Inr 25" "score 1 8 = Inr 12"
  "spec_score 23 40 = 58" "spec_score_half_up 23 40 = 58"
  by code_simp+

text \<open>
  C7, as stated, fails: the score is computed on floats, as
  \<^verbatim>\<open>round((total_correct / total_questions) * 100)\<close>. For 23 correct answers out of 40 the
  quotient is the float next below 0.575 and its product with 100 the float next below
  57.5, so the score is 57, whereas \<open>100 * 23 / 40 = 57.5\<close> rounds to 58, under ties to
  even as under ties upwards.
\<close>

theorem score_rounding_counterexample:
  "score 23 40 = Inr 57 \<and> spec_score 23 40 = 58 \<and> spec_score_half_up 23 40 = 58
     \<and> score 23 40 \<noteq> Inr (spec_score 23 40)"
  by (simp add: score_examples)

text \<open>
  C7, amended. For counters with \<open>0 \<le> total_correct \<le> total_questions\<close> the score is
  computed without an exception and lies between 0 and 100; it is 0 when there is no
  question, 100 when every answer is correct, and 25 for one correct answer out of four.
  For fewer than \<open>2 ^ 44\<close> questions it is an integer nearest to the exact percentage
  \<open>100 * total_correct / total_questions\<close>, and it is the rounded percentage
  \<open>spec_score\<close> unless the percentage lies exactly half way between two integers; for any
  number of questions twice its distance from the percentage, times the number of
  questions \<open>t\<close>, is at most \<open>t + t div 2 ^ 44\<close>. The score that \<^verbatim>\<open>answers_route\<close>
  shows is the score of the counts of its feedback, and lies between 0 and 100.
\<close>

theorem score_properties:
  "(0 \<le> c \<and> c \<le> t \<longrightarrow>
       (\<exists>s. score c t = Inr s \<and> 0 \<le> s \<and> s \<le> 100
             \<and> (0 < t \<longrightarrow> 2 * \<bar>s * t - 100 * c\<bar> \<le> t + t div 2 ^ 44)
             \<and> (0 < t \<and> t < 2 ^ 44 \<and> 2 * ((100 * c) mod t) \<noteq> t \<longrightarrow> s = spec_score c t)))
     \<and> score c 0 = Inr 0
     \<and> (0 < t \<longrightarrow> score t t = Inr 100)
     \<and> score 1 4 = Inr 25
     \<and> (answers_route True True f = Inr (Answers_result fb sc) \<longrightarrow>
          score (correct_count fb) (total_count fb) = Inr sc \<and> 0 \<le> sc \<and> sc \<le> 100)"
proof (intro conjI impI)
  assume ct: "0 \<le> c \<and> c \<le> t"
  then obtain s where s: "score c t = Inr s" "0 \<le> s" "s \<le> 100"
    using score_in_range [of c t] by blast
  have "2 * \<bar>s * t - 100 * c\<bar> \<le> t + t div 2 ^ 44" if "0 < t"
    using ct that s(1) by (intro score_nearest) simp_all
  moreover have "s = spec_score c t" if "0 < t \<and> t < 2 ^ 44 \<and> 2 * ((100 * c) mod t) \<noteq> t"
    using ct that s(1) by (intro score_exact_off_ties) simp_all
  ultimately show "\<exists>s. score c t = Inr s \<and> 0 \<le> s \<and> s \<le> 100
             \<and> (0 < t \<longrightarrow> 2 * \<bar>s * t - 100 * c\<bar> \<le> t + t div 2 ^ 44)
             \<and> (0 < t \<and> t < 2 ^ 44 \<and> 2 * ((100 * c) mod t) \<noteq> t \<longrightarrow> s = spec_score c t)"
    using s by blast
next
  show "score c 0 = Inr 0"
    by (simp add: score_def)
next
  assume "0 < t"
  then show "score t t = Inr 100"
    by (rule score_all_correct)
next
  show "score 1 4 = Inr 25"
    by (rule score_examples)
next
  assume a: "answers_route True True f = Inr (Answers_result fb sc)"
  then show s: "score (correct_count fb) (total_count fb) = Inr sc"
    by (rule answers_route_score)
  from score_in_range [of "correct_count fb" "total_count fb"] counts_ordered [of fb] s
  show "0 \<le> sc" "sc \<le> 100"
    by auto
qed

theorem score_properties_witness:
  "(\<exists>s. score 1 3 = Inr s \<and> 0 \<le> s \<and> s \<le> 100 \<and> 2 * \<bar>s * 3 - 100 * 1\<bar> \<le> 3
         \<and> s = spec_score 1 3)
     \<and> score 3 3 = Inr 100
     \<and> answers_route True True
           [(''selected_category'', ''addition''), (''addition_0_a'', ''3''), (''addition_0_b'', ''4''),
            (''addition_0_op'', ''+''), (''addition_0'', ''7'')]
         = Inr (Answers_result
                 [(''addition'', [\<lparr>fb_text = ''  1.   3 +   4 = 7 -> Well done'', fb_correct = True\<rparr>])]
                 100)
     \<and> score (correct_count
                 [(''addition'', [\<lparr>fb_text = ''  1.   3 +   4 = 7 -> Well done'', fb_correct = True\<rparr>])])
              (total_count
                 [(''addition'', [\<lparr>fb_text = ''  1.   3 +   4 = 7 -> Well done'', fb_correct = True\<rparr>])])
         = Inr 100"
proof -
  let ?f = "[(''selected_category'', ''addition''), (''addition_0_a'', ''3''), (''addition_0_b'', ''4''),
            (''addition_0_op'', ''+''), (''addition_0'', ''7'')]"
  let ?fb = "[(''addition'', [\<lparr>fb_text = ''  1.   3 +   4 = 7 -> Well done'', fb_correct = True\<rparr>])]"
  have h1: "(0::int) \<le> 1 \<and> (1::int) \<le> 3"
    by simp
  have h2: "(0::int) < 3 \<and> (3::int) < 2 ^ 44 \<and> 2 * ((100 * 1) mod 3) \<noteq> (3::int)"
    by simp
  have h3: "answers_route True True ?f = Inr (Answers_result ?fb 100)"
    by code_simp
  from score_properties [of 1 3 ?f ?fb 100] h1 h2 h3 show ?thesis
    by simp
qed

end
